theory Spec2Isabelle
  imports Complex_Main "HOL-Library.Sublist" "HOL-Library.Char_ord" "HOL-Library.List_Lexorder"
begin

section \<open>SWAMPy: the metagenome simulator's main script and its read-generation runner\<close>

text \<open>
  The development embeds \<^verbatim>\<open>src/simulate_metagenome.py\<close> (the top-level script) and
  \<^verbatim>\<open>src/art_runner.py\<close> (the \<^verbatim>\<open>ArtIllumina\<close> class, \<^verbatim>\<open>shuffle_fastq_file\<close> and
  the \<^verbatim>\<open>art_illumina\<close> context manager).

  Conventions of the embedding.
  \<^item> A Python exception is a value of type \<open>error\<close>. A function that only computes
    returns \<open>error + 'a\<close>; a function that also changes the world returns
    \<open>error option \<times> world\<close>, the world being the one reached when the exception was
    raised, so that a \<^verbatim>\<open>finally\<close> block can continue from it.
  \<^item> Python's \<^verbatim>\<open>float\<close> is IEEE binary64. The abundances are values of the type
    \<open>float64\<close> below, whose operations round to nearest, ties to even, overflow to
    an infinity and propagate NaN. The one other float of the embedded code, the
    product \<^verbatim>\<open>2.5*self.nreads\<close> of line 90, is a real number: the product is exact
    in binary64 for every budget below \<^verbatim>\<open>2**50\<close>.
  \<^item> The file system is a finite table of regular files, path to bytes, beside a list
    of the directories, a list of the paths the process may not remove and a list of
    the directories it may not list. Paths are literal strings: two different strings
    are two different entries.
  \<^item> The external programs (\<^verbatim>\<open>art_illumina\<close>, \<^verbatim>\<open>shuf\<close>) are parameters of the
    functions that start them. Calls to \<^verbatim>\<open>logging\<close> do not influence control flow
    or files and are left out.
\<close>

subsection \<open>Exceptions\<close>

datatype error =
    SystemExit int
  | TypeError
  | FileNotFoundError
  | IsADirectoryError
  | PermissionError
  | UnicodeDecodeError
  | ZeroDivisionError
  | ValueError
  | KeyError
  | IndexError
  | OtherError string

text \<open>The spec's name for the exit taken at line 238, \<^verbatim>\<open>exit(1)\<close>.\<close>

definition InvalidAbundance :: error where
  "InvalidAbundance = SystemExit 1"

subsection \<open>Strings and paths\<close>

text \<open>\<^verbatim>\<open>s.replace(a, b)\<close> for one-character \<^verbatim>\<open>a\<close> and \<^verbatim>\<open>b\<close>.\<close>

definition replace_char :: "char \<Rightarrow> char \<Rightarrow> string \<Rightarrow> string" where
  "replace_char a b s = map (\<lambda>c. if c = a then b else c) s"

text \<open>
  Lines 250 and 259 of the main script:
  \<^verbatim>\<open>genome.description.replace(" ", "&").replace("/", "&")\<close>.
\<close>

definition escape_description :: "string \<Rightarrow> string" where
  "escape_description d = replace_char (CHR ''/'') (CHR ''&'') (replace_char (CHR '' '') (CHR ''&'') d)"

definition TAB :: char where
  "TAB = CHR 0x09"

definition NL :: char where
  "NL = CHR 0x0A"

text \<open>\<^verbatim>\<open>tr '\t&' '\n/'\<close> on one byte: tab to newline, \<^verbatim>\<open>&\<close> to \<^verbatim>\<open>/\<close>.\<close>

definition tr_char :: "char \<Rightarrow> char" where
  "tr_char c = (if c = TAB then NL else if c = CHR ''&'' then CHR ''/'' else c)"

definition tr :: "string \<Rightarrow> string" where
  "tr s = map tr_char s"

text \<open>\<^verbatim>\<open>s.split(sep)\<close> for a one-character separator: never the empty list.\<close>

fun split_on :: "char \<Rightarrow> string \<Rightarrow> string list" where
  "split_on sep [] = [[]]"
| "split_on sep (c # cs) =
     (if c = sep then [] # split_on sep cs
      else (case split_on sep cs of
              [] \<Rightarrow> [[c]]
            | w # ws \<Rightarrow> (c # w) # ws))"

text \<open>\<^verbatim>\<open>sep.join(ws)\<close>.\<close>

fun join_with :: "string \<Rightarrow> string list \<Rightarrow> string" where
  "join_with sep [] = []"
| "join_with sep [w] = w"
| "join_with sep (w # v # ws) = w @ sep @ join_with sep (v # ws)"

text \<open>\<^verbatim>\<open>os.path.basename\<close>: what follows the last slash.\<close>

definition basename :: "string \<Rightarrow> string" where
  "basename p = last (split_on (CHR ''/'') p)"

text \<open>\<^verbatim>\<open>os.path.join(a, b)\<close> on POSIX, two arguments.\<close>

definition join :: "string \<Rightarrow> string \<Rightarrow> string" where
  "join a b =
     (if b \<noteq> [] \<and> hd b = CHR ''/'' then b
      else if a = [] \<or> last a = CHR ''/'' then a @ b
      else a @ ''/'' @ b)"

text \<open>\<^verbatim>\<open>".".join(basename(a).split(".")[:-1])\<close>, lines 66 and 261.\<close>

definition short_name :: "string \<Rightarrow> string" where
  "short_name a = join_with ''.'' (butlast (split_on (CHR ''.'') (basename a)))"

text \<open>\<^verbatim>\<open>x[-k:]\<close> for \<open>k > 0\<close>: the last \<open>k\<close> characters, the whole string when it is shorter.\<close>

definition last_chars :: "nat \<Rightarrow> string \<Rightarrow> string" where
  "last_chars k x = drop (length x - k) x"

subsection \<open>Binary64 floating point\<close>

text \<open>
  A binary64 value: a finite one, given by the real number it stands for, one of the
  two infinities, or NaN. The two zeros are one value here; Python compares them
  equal, and the embedded code only adds, divides and compares.
\<close>

datatype float64 = Fin real | PInf | NInf | NaN

text \<open>
  The binade of a magnitude: the largest \<open>e\<close> in \<open>[-1022, 1023]\<close> with
  \<open>2 powi e \<le> a\<close>, and \<open>-1022\<close> below the normal range.
\<close>

primrec binade_below :: "nat \<Rightarrow> real \<Rightarrow> int" where
  "binade_below 0 a = - 1022"
| "binade_below (Suc k) a =
     (if 2 powi (int k - 1021) \<le> a then int k - 1021 else binade_below k a)"

definition exponent :: "real \<Rightarrow> int" where
  "exponent a = binade_below 2045 a"

text \<open>The spacing of the binary64 values around \<open>x\<close>: 53 significant bits.\<close>

definition ulp :: "real \<Rightarrow> real" where
  "ulp x = 2 powi (exponent \<bar>x\<bar> - 52)"

text \<open>The nearest integer, the even one of the two when they are equally near.\<close>

definition round_half_even :: "real \<Rightarrow> int" where
  "round_half_even q =
     (if q - of_int \<lfloor>q\<rfloor> < 1 / 2 then \<lfloor>q\<rfloor>
      else if 1 / 2 < q - of_int \<lfloor>q\<rfloor> then \<lfloor>q\<rfloor> + 1
      else if even \<lfloor>q\<rfloor> then \<lfloor>q\<rfloor> else \<lfloor>q\<rfloor> + 1)"

text \<open>
  The binary64 value of an exact result: the nearest multiple of the spacing, an
  infinity when that multiple is \<^verbatim>\<open>2**1024\<close> or beyond.
\<close>

definition round64 :: "real \<Rightarrow> float64" where
  "round64 x =
     (let y = of_int (round_half_even (x / ulp x)) * ulp x
      in if 2 powi 1024 \<le> y then PInf
         else if y \<le> - (2 powi 1024) then NInf
         else Fin y)"

fun fneg :: "float64 \<Rightarrow> float64" where
  "fneg (Fin x) = Fin (- x)"
| "fneg PInf = NInf"
| "fneg NInf = PInf"
| "fneg NaN = NaN"

fun fabs :: "float64 \<Rightarrow> float64" where
  "fabs (Fin x) = Fin \<bar>x\<bar>"
| "fabs PInf = PInf"
| "fabs NInf = PInf"
| "fabs NaN = NaN"

text \<open>\<^verbatim>\<open>x + y\<close>.\<close>

fun fadd :: "float64 \<Rightarrow> float64 \<Rightarrow> float64" where
  "fadd (Fin a) (Fin b) = round64 (a + b)"
| "fadd (Fin a) PInf = PInf"
| "fadd (Fin a) NInf = NInf"
| "fadd (Fin a) NaN = NaN"
| "fadd PInf (Fin b) = PInf"
| "fadd PInf PInf = PInf"
| "fadd PInf NInf = NaN"
| "fadd PInf NaN = NaN"
| "fadd NInf (Fin b) = NInf"
| "fadd NInf PInf = NaN"
| "fadd NInf NInf = NInf"
| "fadd NInf NaN = NaN"
| "fadd NaN y = NaN"

text \<open>\<^verbatim>\<open>x - y\<close>.\<close>

definition fsub :: "float64 \<Rightarrow> float64 \<Rightarrow> float64" where
  "fsub x y = fadd x (fneg y)"

text \<open>
  \<^verbatim>\<open>x / y\<close>: Python raises \<^verbatim>\<open>ZeroDivisionError\<close> on a zero divisor, and follows
  IEEE 754 otherwise.
\<close>

fun fdiv :: "float64 \<Rightarrow> float64 \<Rightarrow> error + float64" where
  "fdiv x (Fin b) =
     (if b = 0 then Inl ZeroDivisionError
      else Inr (case x of
                  Fin a \<Rightarrow> round64 (a / b)
                | PInf \<Rightarrow> if 0 < b then PInf else NInf
                | NInf \<Rightarrow> if 0 < b then NInf else PInf
                | NaN \<Rightarrow> NaN))"
| "fdiv x PInf = Inr (case x of Fin a \<Rightarrow> Fin 0 | PInf \<Rightarrow> NaN | NInf \<Rightarrow> NaN | NaN \<Rightarrow> NaN)"
| "fdiv x NInf = Inr (case x of Fin a \<Rightarrow> Fin 0 | PInf \<Rightarrow> NaN | NInf \<Rightarrow> NaN | NaN \<Rightarrow> NaN)"
| "fdiv x NaN = Inr NaN"

text \<open>\<^verbatim>\<open>x < y\<close> and \<^verbatim>\<open>x <= y\<close>: false as soon as one side is NaN.\<close>

fun flt :: "float64 \<Rightarrow> float64 \<Rightarrow> bool" where
  "flt (Fin a) (Fin b) = (a < b)"
| "flt (Fin a) PInf = True"
| "flt (Fin a) NInf = False"
| "flt (Fin a) NaN = False"
| "flt PInf y = False"
| "flt NInf (Fin b) = True"
| "flt NInf PInf = True"
| "flt NInf NInf = False"
| "flt NInf NaN = False"
| "flt NaN y = False"

fun fle :: "float64 \<Rightarrow> float64 \<Rightarrow> bool" where
  "fle (Fin a) (Fin b) = (a \<le> b)"
| "fle (Fin a) PInf = True"
| "fle (Fin a) NInf = False"
| "fle (Fin a) NaN = False"
| "fle PInf (Fin b) = False"
| "fle PInf PInf = True"
| "fle PInf NInf = False"
| "fle PInf NaN = False"
| "fle NInf (Fin b) = True"
| "fle NInf PInf = True"
| "fle NInf NInf = True"
| "fle NInf NaN = False"
| "fle NaN y = False"

text \<open>\<^verbatim>\<open>x > y\<close>.\<close>

definition fgt :: "float64 \<Rightarrow> float64 \<Rightarrow> bool" where
  "fgt x y = flt y x"

subsection \<open>Step 1 of the main script: normalising the genome abundances\<close>

text \<open>
  \<^verbatim>\<open>genome_abundances\<close> is a dict from genome name to float; it is modelled by the
  list of its items in insertion order. Lines 234 to 244:
  \<^verbatim>\<open>
  if abs(sum(genome_abundances.values()) - 1) > 0.000000001:
      total = sum(genome_abundances.values())
      if total <= 0:
          logging.info(...)
          exit(1)
      ...
      for k in genome_abundances.keys():
          genome_abundances[k] /= total
  \<close>
  \<^verbatim>\<open>sum\<close> starts from 0 and adds the values one after the other, from left to
  right, each addition rounding to binary64.
\<close>

definition abundance_sum :: "(string \<times> float64) list \<Rightarrow> float64" where
  "abundance_sum ga = foldl fadd (Fin 0) (map snd ga)"

text \<open>The literal \<^verbatim>\<open>0.000000001\<close>: the binary64 value nearest to \<^verbatim>\<open>1e-9\<close>.\<close>

definition TOLERANCE :: float64 where
  "TOLERANCE = round64 (1 / 10 ^ 9)"

text \<open>The test of line 234 on the sum \<open>s\<close>: \<^verbatim>\<open>abs(s - 1) > 0.000000001\<close>.\<close>

definition differs_from_one :: "float64 \<Rightarrow> bool" where
  "differs_from_one s = fgt (fabs (fsub s (Fin 1))) TOLERANCE"

text \<open>The loop of lines 243 and 244: every value is divided in turn.\<close>

fun divide_all :: "float64 \<Rightarrow> (string \<times> float64) list \<Rightarrow> error + (string \<times> float64) list" where
  "divide_all tot [] = Inr []"
| "divide_all tot ((k, v) # ga) =
     (case fdiv v tot of
        Inl e \<Rightarrow> Inl e
      | Inr q \<Rightarrow>
          (case divide_all tot ga of
             Inl e \<Rightarrow> Inl e
           | Inr rest \<Rightarrow> Inr ((k, q) # rest)))"

definition normalise_abundances :: "(string \<times> float64) list \<Rightarrow> error + (string \<times> float64) list" where
  "normalise_abundances ga =
     (if differs_from_one (abundance_sum ga) then
        (let total = abundance_sum ga in
         if fle total (Fin 0) then Inl (SystemExit 1)
         else divide_all total ga)
      else Inr ga)"

subsection \<open>The ArtIllumina object and the call that builds it\<close>

record ArtIllumina =
  outpath :: string
  output_filename_prefix :: string
  read_length :: int
  seq_sys :: string
  verbose :: bool
  temp :: string
  nreads :: int

text \<open>
  \<^verbatim>\<open>def art_illumina(outpath, output_filename_prefix, read_length, seq_sys, verbose, temp, nreads)\<close>
  has seven parameters and no default value. A call binds its positional arguments
  to them before the body starts; an argument the caller leaves out is \<open>None\<close> here,
  and binding then raises \<^verbatim>\<open>TypeError\<close>. The function is a generator wrapped by
  \<^verbatim>\<open>contextmanager\<close>, whose wrapper calls it when the \<^verbatim>\<open>with\<close> statement evaluates
  its expression, so the error is raised there, before \<^verbatim>\<open>try\<close> is entered.
\<close>

definition art_illumina_call ::
  "string \<Rightarrow> string \<Rightarrow> int \<Rightarrow> string \<Rightarrow> bool \<Rightarrow> string option \<Rightarrow> int option \<Rightarrow> error + ArtIllumina" where
  "art_illumina_call op pre rl ss vb tmp nr =
     (case (tmp, nr) of
        (Some t, Some n) \<Rightarrow>
          Inr \<lparr>outpath = op, output_filename_prefix = pre, read_length = rl, seq_sys = ss,
               verbose = vb, temp = t, nreads = n\<rparr>
      | _ \<Rightarrow> Inl TypeError)"

subsection \<open>The shuffle key\<close>

text \<open>\<^verbatim>\<open>int(x)\<close> on a float: truncation towards zero.\<close>

definition py_int :: "real \<Rightarrow> int" where
  "py_int x = (if 0 \<le> x then \<lfloor>x\<rfloor> else \<lceil>x\<rceil>)"

text \<open>Line 90: \<^verbatim>\<open>size=max(5000000, int(2.5*self.nreads))\<close>.\<close>

definition key_size :: "int \<Rightarrow> int" where
  "key_size n = max 5000000 (py_int (2.5 * real_of_int n))"

subsection \<open>The file system\<close>

type_synonym path = string

text \<open>Regular files: path and bytes. The first entry for a path is the file.\<close>

type_synonym fs = "(path \<times> string) list"

definition exists_file :: "fs \<Rightarrow> path \<Rightarrow> bool" where
  "exists_file t p = (p \<in> fst ` set t)"

text \<open>\<^verbatim>\<open>open(p, "r").read()\<close>.\<close>

definition read_file :: "fs \<Rightarrow> path \<Rightarrow> error + string" where
  "read_file t p = (case map_of t p of None \<Rightarrow> Inl FileNotFoundError | Some c \<Rightarrow> Inr c)"

text \<open>Creating or replacing a file: \<^verbatim>\<open>open(p, "w")\<close> followed by writes, or a shell redirection.\<close>

definition write_file :: "path \<Rightarrow> string \<Rightarrow> fs \<Rightarrow> fs" where
  "write_file p c t = (p, c) # filter (\<lambda>e. fst e \<noteq> p) t"

subsection \<open>The world: files, the process-wide random stream, the calls made\<close>

text \<open>
  One call of \<^verbatim>\<open>subprocess.run(["art_illumina", ...])\<close> in \<^verbatim>\<open>run_once\<close>. The options
  that never change (\<^verbatim>\<open>--amplicon --paired --noALN --maskN 0 --minQ 30 --maxQ 30\<close>)
  are not recorded.
\<close>

record art_call =
  infile :: string
  rcount :: int
  out_prefix :: string
  rnd_seed :: int
  call_seq_sys :: string
  call_len :: int

text \<open>
  \<^item> \<open>files\<close> are the regular files and \<open>dirs\<close> the directories that exist.
  \<^item> \<open>protected\<close> lists the paths the process is not allowed to remove: the entries
    of a directory it may not write to, or those of a sticky directory that belong to
    another user.
  \<^item> \<open>unlistable\<close> lists the directories the process is not allowed to list.
  \<^item> \<open>glob_magic\<close> stands for \<^verbatim>\<open>glob.glob\<close> on a pattern whose directory part holds
    one of the characters \<^verbatim>\<open>*\<close>, \<^verbatim>\<open>?\<close>, \<^verbatim>\<open>[\<close>: the paths it returns for the
    pattern, given the files and the directories. Nothing is assumed about it.
  \<^item> \<open>decodable\<close> tells whether a sequence of bytes is text in the encoding of the
    locale, the one \<^verbatim>\<open>open(r, "r")\<close> decodes with.
  \<^item> \<open>rng_stream\<close> is the sequence of raw values of numpy's global generator after
    \<^verbatim>\<open>np.random.seed\<close>, \<open>rng_pos\<close> the number of values taken so far.
  \<^item> \<open>art_calls\<close> and \<open>removed\<close> list the read-generator calls and the successful
    \<^verbatim>\<open>os.remove\<close> calls, in order.
\<close>

record world =
  files :: fs
  dirs :: "path list"
  protected :: "path list"
  unlistable :: "path list"
  glob_magic :: "string \<Rightarrow> fs \<Rightarrow> path list \<Rightarrow> path list"
  decodable :: "string \<Rightarrow> bool"
  rng_stream :: "nat \<Rightarrow> nat"
  rng_pos :: nat
  art_calls :: "art_call list"
  removed :: "path list"

text \<open>
  \<^verbatim>\<open>os.remove(p)\<close>: the path has to exist, the process has to be allowed to remove
  it, and it has to be something else than a directory.
\<close>

definition os_remove :: "path \<Rightarrow> world \<Rightarrow> error + world" where
  "os_remove p w =
     (if \<not> exists_file (files w) p \<and> p \<notin> set (dirs w) then Inl FileNotFoundError
      else if p \<in> set (protected w) then Inl PermissionError
      else if p \<in> set (dirs w) then Inl IsADirectoryError
      else Inr (w\<lparr>files := filter (\<lambda>e. fst e \<noteq> p) (files w)\<rparr>))"

text \<open>\<^verbatim>\<open>glob.has_magic\<close>: one of \<^verbatim>\<open>*\<close>, \<^verbatim>\<open>?\<close>, \<^verbatim>\<open>[\<close> occurs.\<close>

definition has_magic :: "string \<Rightarrow> bool" where
  "has_magic s = list_ex (\<lambda>c. c = CHR ''*'' \<or> c = CHR ''?'' \<or> c = CHR ''['') s"

text \<open>
  \<^verbatim>\<open>glob.glob(join(temp, "tmp.sms.*"))\<close>. When \<^verbatim>\<open>temp\<close> has no magic character it
  names one directory, and the result lists the entries of that directory, files and
  directories alike, whose name starts with \<^verbatim>\<open>tmp.sms.\<close>; the star matches any
  characters, and a name holds no slash. A directory that cannot be listed gives the
  empty list, without an exception. When \<^verbatim>\<open>temp\<close> has a magic character it is itself
  a pattern for directories, and the result is what \<open>glob_magic\<close> gives.
\<close>

definition tmp_sms_match :: "string \<Rightarrow> path \<Rightarrow> bool" where
  "tmp_sms_match tmp p =
     (prefix (join tmp ''tmp.sms.'') p \<and>
      CHR ''/'' \<notin> set (drop (length (join tmp ''tmp.sms.'')) p))"

definition glob_tmp_sms :: "string \<Rightarrow> world \<Rightarrow> path list" where
  "glob_tmp_sms tmp w =
     (if has_magic tmp then glob_magic w (join tmp ''tmp.sms.*'') (files w) (dirs w)
      else if tmp \<in> set (unlistable w) then []
      else remdups (filter (tmp_sms_match tmp) (map fst (files w) @ dirs w)))"

text \<open>\<^verbatim>\<open>np.random.randint(high)\<close>: a value in \<open>[0, high)\<close>, one draw of the stream.\<close>

definition randint :: "int \<Rightarrow> world \<Rightarrow> (error + int) \<times> world" where
  "randint high w =
     (if high \<le> 0 then (Inl ValueError, w)
      else (Inr (int (rng_stream w (rng_pos w)) mod high), w\<lparr>rng_pos := Suc (rng_pos w)\<rparr>))"

definition ALPHABET :: string where
  "ALPHABET = ''abcdefghijklmnopqrstuvwxyz''"

text \<open>\<^verbatim>\<open>"".join(np.random.choice(ALPHABET, size=k))\<close>: \<open>k\<close> letters, one draw each.\<close>

definition random_choice :: "nat \<Rightarrow> world \<Rightarrow> string \<times> world" where
  "random_choice k w =
     (map (\<lambda>i. ALPHABET ! (rng_stream w (rng_pos w + i) mod 26)) [0..<k],
      w\<lparr>rng_pos := rng_pos w + k\<rparr>)"

subsection \<open>The external read generator and \<^verbatim>\<open>run_once\<close>\<close>

text \<open>
  What a call of the external program does: it cannot be started
  (\<^verbatim>\<open>subprocess.run\<close> raises \<^verbatim>\<open>FileNotFoundError\<close>), or it ends with bytes on standard
  output and standard error and a changed file system. Its exit status is not looked at.
\<close>

datatype proc_result = NotStarted | Completed string string fs

type_synonym art_program = "art_call \<Rightarrow> fs \<Rightarrow> proc_result"

text \<open>\<^verbatim>\<open>bytes.decode("ASCII")\<close> raises on a byte above 127.\<close>

definition is_ascii :: "string \<Rightarrow> bool" where
  "is_ascii s = list_all (\<lambda>c. (of_char c :: nat) < 128) s"

definition run_once ::
  "art_program \<Rightarrow> ArtIllumina \<Rightarrow> string \<Rightarrow> int \<Rightarrow> string \<Rightarrow> int \<Rightarrow> world \<Rightarrow> error option \<times> world" where
  "run_once art self fasta n pre seed w =
     (let call = \<lparr>infile = fasta, rcount = n, out_prefix = pre, rnd_seed = seed,
                  call_seq_sys = seq_sys self, call_len = read_length self\<rparr>;
          w1 = w\<lparr>art_calls := art_calls w @ [call]\<rparr>
      in case art call (files w1) of
           NotStarted \<Rightarrow> (Some FileNotFoundError, w1)
         | Completed out err t \<Rightarrow>
             (let w2 = w1\<lparr>files := t\<rparr>
              in if \<not> is_ascii out then (Some UnicodeDecodeError, w2)
                 else if \<not> is_ascii err then (Some UnicodeDecodeError, w2)
                 else (None, w2)))"

subsection \<open>\<^verbatim>\<open>ArtIllumina.run\<close>\<close>

text \<open>
  Lines 62 to 71, the loop over \<^verbatim>\<open>zip(amplicons, n_reads)\<close>:
  \<^verbatim>\<open>
  for a, n in params:
      short_name = ".".join(basename(a).split(".")[:-1])
      ...
      self.run_once(a, n, join(self.temp,"tmp.sms.")+short_name+".", np.random.randint(2 ** 63))
  \<close>
  The arguments are evaluated left to right, the seed last, just before the call.
\<close>

fun run_reads :: "art_program \<Rightarrow> ArtIllumina \<Rightarrow> (string \<times> int) list \<Rightarrow> world \<Rightarrow> error option \<times> world" where
  "run_reads art self [] w = (None, w)"
| "run_reads art self ((a, n) # params) w =
     (case randint (2 ^ 63) w of
        (Inl e, w1) \<Rightarrow> (Some e, w1)
      | (Inr seed, w1) \<Rightarrow>
          (case run_once art self a n (join (temp self) ''tmp.sms.'' @ short_name a @ ''.'') seed w1 of
             (Some e, w2) \<Rightarrow> (Some e, w2)
           | (None, w2) \<Rightarrow> run_reads art self params w2))"

definition CR :: char where
  "CR = CHR 0x0D"

text \<open>
  What a file opened in text mode delivers for the decoded text: \<^verbatim>\<open>\r\n\<close> and a
  lone \<^verbatim>\<open>\r\<close> are read as \<^verbatim>\<open>\n\<close>.
\<close>

fun universal_newlines :: "string \<Rightarrow> string" where
  "universal_newlines [] = []"
| "universal_newlines [c] = (if c = CR then [NL] else [c])"
| "universal_newlines (c # d # cs) =
     (if c = CR \<and> d = NL then NL # universal_newlines cs
      else if c = CR then NL # universal_newlines (d # cs)
      else c # universal_newlines (d # cs))"

text \<open>
  \<^verbatim>\<open>open(r, "r")\<close> followed by reading to the end: the path has to be a regular file
  whose bytes the locale's encoding decodes. The text is written back in the same
  encoding, a newline as a newline.
\<close>

definition read_text :: "world \<Rightarrow> path \<Rightarrow> error + string" where
  "read_text w r =
     (if r \<in> set (dirs w) then Inl IsADirectoryError
      else (case map_of (files w) r of
              None \<Rightarrow> Inl FileNotFoundError
            | Some c \<Rightarrow> if decodable w c then Inr (universal_newlines c) else Inl UnicodeDecodeError))"

text \<open>
  \<^verbatim>\<open>for r in rs: with open(r, "r") as fh: shutil.copyfileobj(fh, out)\<close>, the output
  file \<open>out\<close> being open for writing.
\<close>

fun copy_all :: "path \<Rightarrow> path list \<Rightarrow> world \<Rightarrow> error option \<times> world" where
  "copy_all out [] w = (None, w)"
| "copy_all out (r # rs) w =
     (case read_text w r of
        Inl e \<Rightarrow> (Some e, w)
      | Inr c \<Rightarrow>
          (case read_file (files w) out of
             Inl e \<Rightarrow> (Some e, w)
           | Inr sofar \<Rightarrow> copy_all out rs (w\<lparr>files := write_file out (sofar @ c) (files w)\<rparr>)))"

definition unshuffled1 :: "ArtIllumina \<Rightarrow> path" where
  "unshuffled1 self = join (temp self) ''tmp.sms.all_files_unshuffled1.fastq''"

definition unshuffled2 :: "ArtIllumina \<Rightarrow> path" where
  "unshuffled2 self = join (temp self) ''tmp.sms.all_files_unshuffled2.fastq''"

definition random_data :: "ArtIllumina \<Rightarrow> path" where
  "random_data self = join (temp self) ''tmp.sms.random_data''"

definition out_R1 :: "ArtIllumina \<Rightarrow> path" where
  "out_R1 self = join (outpath self) (output_filename_prefix self @ ''_R1.fastq'')"

definition out_R2 :: "ArtIllumina \<Rightarrow> path" where
  "out_R2 self = join (outpath self) (output_filename_prefix self @ ''_R2.fastq'')"

text \<open>Lines 74 to 85: both file lists are taken first, then the two files are written.\<close>

definition run_merge :: "ArtIllumina \<Rightarrow> world \<Rightarrow> error option \<times> world" where
  "run_merge self w =
     (let all_r1_files = sort (filter (\<lambda>x. last_chars 4 x = ''1.fq'') (glob_tmp_sms (temp self) w));
          all_r2_files = sort (filter (\<lambda>x. last_chars 4 x = ''2.fq'') (glob_tmp_sms (temp self) w))
      in case copy_all (unshuffled1 self) all_r1_files
                (w\<lparr>files := write_file (unshuffled1 self) [] (files w)\<rparr>) of
           (Some e, w1) \<Rightarrow> (Some e, w1)
         | (None, w1) \<Rightarrow>
             copy_all (unshuffled2 self) all_r2_files
               (w1\<lparr>files := write_file (unshuffled2 self) [] (files w1)\<rparr>))"

text \<open>Lines 88 to 90: the random data for the shuffle.\<close>

definition run_random_data :: "ArtIllumina \<Rightarrow> world \<Rightarrow> world" where
  "run_random_data self w =
     (case random_choice (nat (key_size (nreads self))) w of
        (key, w1) \<Rightarrow> w1\<lparr>files := write_file (random_data self) key (files w1)\<rparr>)"

subsection \<open>\<^verbatim>\<open>shuffle_fastq_file\<close>: the shell pipeline\<close>

text \<open>
  \<^verbatim>\<open>paste -s -d '\t\t\t\n'\<close>: every newline of the input but one that is its last byte
  is replaced by the next delimiter of the cycle tab, tab, tab, newline; the last byte
  is copied, and a newline is added unless the input ended with one. On an empty
  input the output is a single newline.
\<close>

definition paste_delim :: "nat \<Rightarrow> char" where
  "paste_delim k = (if k mod 4 = 3 then NL else TAB)"

fun paste_go :: "nat \<Rightarrow> string \<Rightarrow> string" where
  "paste_go k [] = []"
| "paste_go k [c] = [c]"
| "paste_go k (c # d # cs) =
     (if c = NL then paste_delim k # paste_go (Suc k) (d # cs)
      else c # paste_go k (d # cs))"

definition paste_s :: "string \<Rightarrow> string" where
  "paste_s s = (if s = [] then [NL] else if last s = NL then paste_go 0 s else paste_go 0 s @ [NL])"

text \<open>The lines of a text: a last line without its newline counts.\<close>

definition file_lines :: "string \<Rightarrow> string list" where
  "file_lines s =
     (if s = [] then [] else if last s = NL then split_on NL (butlast s) else split_on NL s)"

definition unlines :: "string list \<Rightarrow> string" where
  "unlines ls = concat (map (\<lambda>l. l @ [NL]) ls)"

text \<open>
  \<^verbatim>\<open>shuf --random-source=FILE\<close> reads all its input lines and writes them in an order
  it computes from the number of lines and the bytes of FILE. The program is a
  parameter: given those bytes and the number \<open>n\<close> of lines, the list of the input
  positions in output order. Positions from \<open>n\<close> on, which the utility never
  produces, are dropped.
\<close>

type_synonym shuf_program = "string \<Rightarrow> nat \<Rightarrow> nat list"

definition shuf_order :: "shuf_program \<Rightarrow> string \<Rightarrow> nat \<Rightarrow> nat list" where
  "shuf_order shuf key n = filter (\<lambda>j. j < n) (shuf key n)"

definition shuf_lines :: "shuf_program \<Rightarrow> string \<Rightarrow> string list \<Rightarrow> string list" where
  "shuf_lines shuf key ls = map (\<lambda>j. ls ! j) (shuf_order shuf key (length ls))"

text \<open>The records of a FASTQ text as \<^verbatim>\<open>shuf\<close> sees them: one line per record.\<close>

definition fastq_records :: "string \<Rightarrow> string list" where
  "fastq_records c = file_lines (paste_s c)"

definition shuffle_pipeline :: "shuf_program \<Rightarrow> string \<Rightarrow> string \<Rightarrow> string" where
  "shuffle_pipeline shuf key c = tr (unlines (shuf_lines shuf key (fastq_records c)))"

text \<open>
  Line 100. \<^verbatim>\<open>os.system\<close> raises nothing: when the input or the random source is
  missing the pipeline writes an empty output file.
\<close>

definition shuffle_fastq_file :: "shuf_program \<Rightarrow> path \<Rightarrow> path \<Rightarrow> path \<Rightarrow> fs \<Rightarrow> fs" where
  "shuffle_fastq_file shuf input_filename output_filename random_seed t =
     write_file output_filename
       (case (read_file t input_filename, read_file t random_seed) of
          (Inr c, Inr key) \<Rightarrow> shuffle_pipeline shuf key c
        | _ \<Rightarrow> [])
       t"

text \<open>Lines 93 and 94.\<close>

definition run_shuffle :: "shuf_program \<Rightarrow> ArtIllumina \<Rightarrow> world \<Rightarrow> world" where
  "run_shuffle shuf self w =
     w\<lparr>files :=
         shuffle_fastq_file shuf (unshuffled2 self) (out_R2 self) (random_data self)
           (shuffle_fastq_file shuf (unshuffled1 self) (out_R1 self) (random_data self) (files w))\<rparr>"

definition run ::
  "art_program \<Rightarrow> shuf_program \<Rightarrow> ArtIllumina \<Rightarrow> string list \<Rightarrow> int list \<Rightarrow> world \<Rightarrow> error option \<times> world" where
  "run art shuf self amplicons n_reads w =
     (case run_reads art self (zip amplicons n_reads) w of
        (Some e, w1) \<Rightarrow> (Some e, w1)
      | (None, w1) \<Rightarrow>
          (case run_merge self w1 of
             (Some e, w2) \<Rightarrow> (Some e, w2)
           | (None, w2) \<Rightarrow> (None, run_shuffle shuf self (run_random_data self w2))))"

subsection \<open>The context manager \<^verbatim>\<open>art_illumina\<close>\<close>

text \<open>The loop of the \<^verbatim>\<open>finally\<close> block: \<^verbatim>\<open>for tem in ...: os.remove(tem)\<close>.\<close>

fun remove_each :: "path list \<Rightarrow> world \<Rightarrow> error option \<times> world" where
  "remove_each [] w = (None, w)"
| "remove_each (p # ps) w =
     (case os_remove p w of
        Inl e \<Rightarrow> (Some e, w)
      | Inr w1 \<Rightarrow> remove_each ps (w1\<lparr>removed := removed w1 @ [p]\<rparr>))"

definition art_illumina_finally :: "string \<Rightarrow> world \<Rightarrow> error option \<times> world" where
  "art_illumina_finally tmp w = remove_each (glob_tmp_sms tmp w) w"

text \<open>
  \<^verbatim>\<open>with art_illumina(...) as art: body\<close>. When the call itself raises there is no
  generator and nothing to finalise. Otherwise the body runs, then the \<^verbatim>\<open>finally\<close>
  block, whether the body raised or not; an exception of the \<^verbatim>\<open>finally\<close> block
  replaces the body's.
\<close>

definition with_art_illumina ::
  "error + ArtIllumina \<Rightarrow> (ArtIllumina \<Rightarrow> world \<Rightarrow> error option \<times> world) \<Rightarrow> world \<Rightarrow> error option \<times> world" where
  "with_art_illumina called body w =
     (case called of
        Inl e \<Rightarrow> (Some e, w)
      | Inr art \<Rightarrow>
          (case body art w of
             (r, w1) \<Rightarrow>
               (case art_illumina_finally (temp art) w1 of
                  (Some e, w2) \<Rightarrow> (Some e, w2)
                | (None, w2) \<Rightarrow> (r, w2))))"

subsection \<open>The main script\<close>

text \<open>The module constant of line 29; no command-line option changes it.\<close>

definition SEQ_SYS :: string where
  "SEQ_SYS = ''MSv3''"

record config =
  OUTPUT_FOLDER :: string
  OUTPUT_FILENAME_PREFIX :: string
  N_READS :: int
  READ_LENGTH :: int
  VERBOSE :: bool

text \<open>
  Lines 352 and 353:
  \<^verbatim>\<open>
  with art_illumina(OUTPUT_FOLDER, OUTPUT_FILENAME_PREFIX, READ_LENGTH, SEQ_SYS,VERBOSE) as art:
      art.run(amplicons, n_reads)
  \<close>
\<close>

definition step4 ::
  "art_program \<Rightarrow> shuf_program \<Rightarrow> config \<Rightarrow> string list \<Rightarrow> int list \<Rightarrow> world \<Rightarrow> error option \<times> world" where
  "step4 gen shuf cfg amplicons n_reads w =
     with_art_illumina
       (art_illumina_call (OUTPUT_FOLDER cfg) (OUTPUT_FILENAME_PREFIX cfg) (READ_LENGTH cfg)
          SEQ_SYS (VERBOSE cfg) None None)
       (\<lambda>art. run gen shuf art amplicons n_reads) w"

text \<open>
  The script from line 234 on. \<open>prepare\<close> stands for lines 246 to 348 (splitting the
  genome file, the aligner, the allocation of read counts, the PCR errors), which
  yield the lists \<^verbatim>\<open>amplicons\<close> and \<^verbatim>\<open>n_reads\<close> or raise; \<open>step5\<close> for lines 356 to
  368, which remove the working directories' files after asking the user.
\<close>

type_synonym prepare = "(string \<times> float64) list \<Rightarrow> world \<Rightarrow> (error + string list \<times> int list) \<times> world"

definition main_script ::
  "art_program \<Rightarrow> shuf_program \<Rightarrow> prepare \<Rightarrow> (world \<Rightarrow> error option \<times> world) \<Rightarrow> config \<Rightarrow>
   (string \<times> float64) list \<Rightarrow> world \<Rightarrow> error option \<times> world" where
  "main_script gen shuf prepare step5 cfg genome_abundances w =
     (case normalise_abundances genome_abundances of
        Inl e \<Rightarrow> (Some e, w)
      | Inr ga \<Rightarrow>
          (case prepare ga w of
             (Inl e, w1) \<Rightarrow> (Some e, w1)
           | (Inr (amplicons, n_reads), w1) \<Rightarrow>
               (case step4 gen shuf cfg amplicons n_reads w1 of
                  (Some e, w2) \<Rightarrow> (Some e, w2)
                | (None, w2) \<Rightarrow> step5 w2)))"

subsection \<open>The allocation of read counts (lines 281 to 301 of the main script)\<close>

text \<open>
  One row of \<^verbatim>\<open>df_amplicons\<close>, with the columns the allocation reads and writes. A
  column that has not been assigned yet holds 0 and is not read before it is assigned.
\<close>

record amplicon_row =
  ref :: string
  amplicon_number :: nat
  abundance :: real
  total_n_reads :: nat
  hyperparameter :: real
  genome_n_reads :: nat
  amplicon_prob :: real
  n_reads :: nat

text \<open>
  \<^verbatim>\<open>df.apply(f, axis=1)\<close>: \<^verbatim>\<open>f\<close> is called on the rows from first to last and the
  results make a column. A sampler is a closure with a state of its own, which is
  passed along here; an exception ends the loop.
\<close>

fun df_apply :: "('s \<Rightarrow> 'r \<Rightarrow> error + 'v \<times> 's) \<Rightarrow> 's \<Rightarrow> 'r list \<Rightarrow> error + 'v list \<times> 's" where
  "df_apply f st [] = Inr ([], st)"
| "df_apply f st (r # rs) =
     (case f st r of
        Inl e \<Rightarrow> Inl e
      | Inr (v, st1) \<Rightarrow>
          (case df_apply f st1 rs of
             Inl e \<Rightarrow> Inl e
           | Inr (vs, st2) \<Rightarrow> Inr (v # vs, st2)))"

text \<open>\<^verbatim>\<open>df[column] = series\<close>, the series having one value per row.\<close>

definition assign :: "('r \<Rightarrow> 'v \<Rightarrow> 'r) \<Rightarrow> 'r list \<Rightarrow> 'v list \<Rightarrow> 'r list" where
  "assign upd rows vs = map2 upd rows vs"

text \<open>
  The random draws of numpy that the samplers make, as parameters: a multinomial
  draw of \<open>n\<close> trials over a probability vector, and a Dirichlet draw over a vector of
  concentrations. Each takes the state of the random generator and returns the next.
\<close>

type_synonym 'g multinomial = "nat \<Rightarrow> real list \<Rightarrow> 'g \<Rightarrow> nat list \<times> 'g"

type_synonym 'g dirichlet = "real list \<Rightarrow> 'g \<Rightarrow> real list \<times> 'g"

text \<open>
  Modelled from the spec: the state shared by the four samplers that
  \<^verbatim>\<open>read_model.get_amplicon_reads_sampler\<close> returns (\<^verbatim>\<open>read_model.py\<close> is not among
  the sources). Section 4.2 asks for each genome-level draw to be computed once and
  stored in a mapping keyed by genome identity: \<open>genome_draw\<close> is the single draw of
  stage 2 over all genomes, \<open>prob_cache\<close> and \<open>count_cache\<close> hold the vectors of
  stages 3 and 4 by genome.
\<close>

record 'g sampler_state =
  generator :: 'g
  genome_draw :: "(string \<times> nat) list option"
  prob_cache :: "(string \<times> real list) list"
  count_cache :: "(string \<times> nat list) list"

text \<open>\<^verbatim>\<open>v[i]\<close> for \<open>i \<ge> 0\<close>.\<close>

definition component :: "'a list \<Rightarrow> nat \<Rightarrow> error + 'a" where
  "component v i = (if i < length v then Inr (v ! i) else Inl IndexError)"

text \<open>The first position of \<open>x\<close> in a list, the length of the list when \<open>x\<close> is not in it.\<close>

fun index_of :: "'a \<Rightarrow> 'a list \<Rightarrow> nat" where
  "index_of x [] = 0"
| "index_of x (y # ys) = (if x = y then 0 else Suc (index_of x ys))"

text \<open>
  Modelled from the spec: the amplicons of a genome, from the \<^verbatim>\<open>amplicons_by_genome\<close>
  argument of the allocator's contract (section 4.2), given as the list of the
  (genome, amplicon number) pairs of the table; and the place of a row's amplicon
  among the amplicons of its genome, which is the component of a genome-level
  vector that the row is given.
\<close>

definition amplicons_of :: "(string \<times> nat) list \<Rightarrow> string \<Rightarrow> nat list" where
  "amplicons_of amps g = map snd (filter (\<lambda>k. fst k = g) amps)"

definition position :: "(string \<times> nat) list \<Rightarrow> amplicon_row \<Rightarrow> nat" where
  "position amps r = index_of (amplicon_number r) (amplicons_of amps (ref r))"

text \<open>
  Modelled from the spec: \<^verbatim>\<open>genome_count_sampler\<close> of \<^verbatim>\<open>read_model.py\<close>, stage 2 of
  section 4.2: one draw \<open>Multinomial(total_reads, abundance_vector)\<close> over all genomes,
  made at the first request and kept; every row is given the count of its genome.
\<close>

definition genome_count_sampler ::
  "'g multinomial \<Rightarrow> (string \<times> real) list \<Rightarrow> nat \<Rightarrow>
   'g sampler_state \<Rightarrow> amplicon_row \<Rightarrow> error + nat \<times> 'g sampler_state" where
  "genome_count_sampler multinomial abundances budget st row =
     (case genome_draw st of
        Some d \<Rightarrow>
          (case map_of d (ref row) of None \<Rightarrow> Inl KeyError | Some c \<Rightarrow> Inr (c, st))
      | None \<Rightarrow>
          (case multinomial budget (map snd abundances) (generator st) of
             (cs, g) \<Rightarrow>
               (case map_of (zip (map fst abundances) cs) (ref row) of
                  None \<Rightarrow> Inl KeyError
                | Some c \<Rightarrow>
                    Inr (c, st\<lparr>generator := g,
                               genome_draw := Some (zip (map fst abundances) cs)\<rparr>))))"

text \<open>
  Modelled from the spec: \<^verbatim>\<open>amplicon_probability_sampler\<close> of \<^verbatim>\<open>read_model.py\<close>,
  stage 3 of section 4.2: for each genome one draw from the Dirichlet distribution
  over the hyperparameters of that genome's amplicons, cached by genome and shared
  by all of its amplicons.
\<close>

definition amplicon_probability_sampler ::
  "'g dirichlet \<Rightarrow> (string \<Rightarrow> nat \<Rightarrow> real) \<Rightarrow> (string \<times> nat) list \<Rightarrow>
   'g sampler_state \<Rightarrow> amplicon_row \<Rightarrow> error + real \<times> 'g sampler_state" where
  "amplicon_probability_sampler dirichlet hyper amps st row =
     (case map_of (prob_cache st) (ref row) of
        Some v \<Rightarrow>
          (case component v (position amps row) of Inl e \<Rightarrow> Inl e | Inr p \<Rightarrow> Inr (p, st))
      | None \<Rightarrow>
          (case dirichlet (map (hyper (ref row)) (amplicons_of amps (ref row))) (generator st) of
             (v, g) \<Rightarrow>
               (case component v (position amps row) of
                  Inl e \<Rightarrow> Inl e
                | Inr p \<Rightarrow>
                    Inr (p, st\<lparr>generator := g,
                               prob_cache := (ref row, v) # prob_cache st\<rparr>))))"

text \<open>
  Modelled from the spec: \<^verbatim>\<open>amplicon_reads_sampler\<close> of \<^verbatim>\<open>read_model.py\<close>, stage 4
  of section 4.2: for each genome one draw
  \<open>Multinomial(genome_read_count, amplicon_probability_vector)\<close>, computed once per
  genome and then distributed to the amplicon rows.
\<close>

definition amplicon_reads_sampler ::
  "'g multinomial \<Rightarrow> (string \<times> nat) list \<Rightarrow>
   'g sampler_state \<Rightarrow> amplicon_row \<Rightarrow> error + nat \<times> 'g sampler_state" where
  "amplicon_reads_sampler multinomial amps st row =
     (case map_of (count_cache st) (ref row) of
        Some v \<Rightarrow>
          (case component v (position amps row) of Inl e \<Rightarrow> Inl e | Inr c \<Rightarrow> Inr (c, st))
      | None \<Rightarrow>
          (case map_of (prob_cache st) (ref row) of
             None \<Rightarrow> Inl KeyError
           | Some pv \<Rightarrow>
               (case multinomial (genome_n_reads row) pv (generator st) of
                  (v, g) \<Rightarrow>
                    (case component v (position amps row) of
                       Inl e \<Rightarrow> Inl e
                     | Inr c \<Rightarrow>
                         Inr (c, st\<lparr>generator := g,
                                    count_cache := (ref row, v) # count_cache st\<rparr>)))))"

text \<open>
  Lines 288 to 301 of the main script, the four \<^verbatim>\<open>apply\<close> calls in their order:
  \<^verbatim>\<open>
  df_amplicons["total_n_reads"] = N_READS
  df_amplicons["hyperparameter"] = df_amplicons.apply(amplicon_hyperparameter_sampler, axis=1)
  df_amplicons["genome_n_reads"] = df_amplicons.apply(genome_count_sampler, axis=1)
  df_amplicons["amplicon_prob"] = df_amplicons.apply(amplicon_probability_sampler, axis=1)
  df_amplicons["n_reads"] = df_amplicons.apply(amplicon_reads_sampler, axis=1)
  \<close>
  The hyperparameter of stage 1 is a function \<open>hyper\<close> of genome and amplicon number,
  without state.
\<close>

definition allocate ::
  "'g multinomial \<Rightarrow> 'g dirichlet \<Rightarrow> (string \<Rightarrow> nat \<Rightarrow> real) \<Rightarrow> (string \<times> real) list \<Rightarrow> nat \<Rightarrow>
   amplicon_row list \<Rightarrow> 'g \<Rightarrow> error + amplicon_row list \<times> 'g sampler_state" where
  "allocate multinomial dirichlet hyper abundances budget df g0 =
     (let amps = map (\<lambda>r. (ref r, amplicon_number r)) df;
          st0 = \<lparr>generator = g0, genome_draw = None, prob_cache = [], count_cache = []\<rparr>;
          df0 = map (\<lambda>r. r\<lparr>total_n_reads := budget\<rparr>) df;
          df1 = map (\<lambda>r. r\<lparr>hyperparameter := hyper (ref r) (amplicon_number r)\<rparr>) df0
      in case df_apply (genome_count_sampler multinomial abundances budget) st0 df1 of
           Inl e \<Rightarrow> Inl e
         | Inr (col2, st2) \<Rightarrow>
             (let df2 = assign (\<lambda>r v. r\<lparr>genome_n_reads := v\<rparr>) df1 col2
              in case df_apply (amplicon_probability_sampler dirichlet hyper amps) st2 df2 of
                   Inl e \<Rightarrow> Inl e
                 | Inr (col3, st3) \<Rightarrow>
                     (let df3 = assign (\<lambda>r v. r\<lparr>amplicon_prob := v\<rparr>) df2 col3
                      in case df_apply (amplicon_reads_sampler multinomial amps) st3 df3 of
                           Inl e \<Rightarrow> Inl e
                         | Inr (col4, st4) \<Rightarrow>
                             Inr (assign (\<lambda>r v. r\<lparr>n_reads := v\<rparr>) df3 col4, st4))))"

subsection \<open>Notions used to state the properties\<close>

text \<open>The seed that \<^verbatim>\<open>np.random.randint(2 ** 63)\<close> returns at the \<open>i\<close>-th draw after \<open>w\<close>.\<close>

definition seed_at :: "world \<Rightarrow> nat \<Rightarrow> int" where
  "seed_at w i = int (rng_stream w (rng_pos w + i)) mod 2 ^ 63"

text \<open>The call that the loop of \<^verbatim>\<open>run\<close> makes for one pair, given its seed.\<close>

definition call_for :: "ArtIllumina \<Rightarrow> string \<times> int \<Rightarrow> int \<Rightarrow> art_call" where
  "call_for self p seed =
     \<lparr>infile = fst p, rcount = snd p,
      out_prefix = join (temp self) ''tmp.sms.'' @ short_name (fst p) @ ''.'',
      rnd_seed = seed, call_seq_sys = seq_sys self, call_len = read_length self\<rparr>"

text \<open>
  The two constants of binary64 rounding: a result in the normal range is off by at
  most \<open>unit_roundoff\<close> times its magnitude, one below it by at most
  \<open>underflow_unit\<close>.
\<close>

definition unit_roundoff :: real where
  "unit_roundoff = 2 powi (- 53)"

definition underflow_unit :: real where
  "underflow_unit = 2 powi (- 1075)"

subsection \<open>Concrete inputs\<close>

definition example_self :: ArtIllumina where
  "example_self = \<lparr>outpath = ''out'', output_filename_prefix = ''example'', read_length = 250,
     seq_sys = ''MSv3'', verbose = False, temp = ''tmp'', nreads = 1000\<rparr>"

definition example_config :: config where
  "example_config = \<lparr>OUTPUT_FOLDER = ''out'', OUTPUT_FILENAME_PREFIX = ''example'', N_READS = 100000,
     READ_LENGTH = 250, VERBOSE = True\<rparr>"

definition example_stream :: "nat \<Rightarrow> nat" where
  "example_stream i = 7 * i + 3"

definition repeating_stream :: "nat \<Rightarrow> nat" where
  "repeating_stream i = 5"

text \<open>No path for any pattern.\<close>

definition no_expansion :: "string \<Rightarrow> fs \<Rightarrow> path list \<Rightarrow> path list" where
  "no_expansion pat t ds = []"

text \<open>
  A world with two regular files, no directory of its own, nothing protected, and the
  ASCII encoding.
\<close>

definition example_world :: world where
  "example_world = \<lparr>files = [(''tmp/tmp.sms.old.1.fq'', ''x''), (''tmp/keep.txt'', ''y'')],
     dirs = [], protected = [], unlistable = [], glob_magic = no_expansion, decodable = is_ascii,
     rng_stream = example_stream, rng_pos = 0, art_calls = [], removed = []\<rparr>"

definition repeating_world :: world where
  "repeating_world = \<lparr>files = [],
     dirs = [], protected = [], unlistable = [], glob_magic = no_expansion, decodable = is_ascii,
     rng_stream = repeating_stream, rng_pos = 0, art_calls = [], removed = []\<rparr>"

text \<open>The same files, the temporary one left by another user in a sticky directory.\<close>

definition sticky_world :: world where
  "sticky_world = \<lparr>files = [(''tmp/tmp.sms.old.1.fq'', ''x''), (''tmp/keep.txt'', ''y'')],
     dirs = [], protected = [''tmp/tmp.sms.old.1.fq''], unlistable = [],
     glob_magic = no_expansion, decodable = is_ascii,
     rng_stream = example_stream, rng_pos = 0, art_calls = [], removed = []\<rparr>"

text \<open>A world whose temp directory holds a subdirectory named \<^verbatim>\<open>tmp.sms.d\<close>.\<close>

definition nested_world :: world where
  "nested_world = \<lparr>files = [(''tmp/keep.txt'', ''y'')],
     dirs = [''tmp/tmp.sms.d''], protected = [], unlistable = [],
     glob_magic = no_expansion, decodable = is_ascii,
     rng_stream = example_stream, rng_pos = 0, art_calls = [], removed = []\<rparr>"

text \<open>A read generator that writes one line to each of its two output files.\<close>

definition example_gen :: art_program where
  "example_gen c t =
     Completed [] []
       (write_file (out_prefix c @ ''2.fq'') ''@r/2'' (write_file (out_prefix c @ ''1.fq'') ''@r/1'' t))"

text \<open>A shuffle that reverses its input, whatever the random source holds.\<close>

definition example_shuf :: shuf_program where
  "example_shuf key n = rev [0..<n]"

text \<open>What \<^verbatim>\<open>shuffle_fastq_file\<close> writes, given what reading its two input files gave.\<close>

definition shuffled_content :: "shuf_program \<Rightarrow> error + string \<Rightarrow> error + string \<Rightarrow> string" where
  "shuffled_content shuf input key =
     (case (input, key) of (Inr c, Inr k) \<Rightarrow> shuffle_pipeline shuf k c | _ \<Rightarrow> [])"

text \<open>The random data that \<^verbatim>\<open>run\<close> writes when it reaches line 88 in world \<open>w\<close>.\<close>

definition shuffle_key :: "ArtIllumina \<Rightarrow> world \<Rightarrow> string" where
  "shuffle_key self w = fst (random_choice (nat (key_size (nreads self))) w)"

text \<open>A body of the \<^verbatim>\<open>with\<close> statement that leaves a temporary file and raises.\<close>

definition failing_body :: "ArtIllumina \<Rightarrow> world \<Rightarrow> error option \<times> world" where
  "failing_body art w =
     (Some (OtherError ''boom''),
      w\<lparr>files := write_file (join (temp art) ''tmp.sms.partial'') ''xx'' (files w)\<rparr>)"

text \<open>A body of the \<^verbatim>\<open>with\<close> statement that does nothing and ends normally.\<close>

definition quiet_body :: "ArtIllumina \<Rightarrow> world \<Rightarrow> error option \<times> world" where
  "quiet_body art w = (None, w)"

definition odd_budget_self :: ArtIllumina where
  "odd_budget_self = \<lparr>outpath = ''out'', output_filename_prefix = ''example'', read_length = 250,
     seq_sys = ''MSv3'', verbose = False, temp = ''tmp'', nreads = 2000001\<rparr>"

text \<open>Two concatenated mate files of two records each, and a random source.\<close>

definition mate1_text :: string where
  "mate1_text = unlines [''@a/1'', ''AC'', ''+'', ''II'', ''@b/1'', ''GG'', ''+'', ''JJ'']"

definition mate2_text :: string where
  "mate2_text = unlines [''@a/2'', ''GT'', ''+'', ''II'', ''@b/2'', ''CC'', ''+'', ''JJ'']"

definition paired_world :: world where
  "paired_world =
     \<lparr>files = [(''tmp/tmp.sms.all_files_unshuffled1.fastq'', mate1_text),
               (''tmp/tmp.sms.all_files_unshuffled2.fastq'', mate2_text),
               (''tmp/tmp.sms.random_data'', ''qwerty'')],
      dirs = [], protected = [], unlistable = [], glob_magic = no_expansion, decodable = is_ascii,
      rng_stream = example_stream, rng_pos = 0, art_calls = [], removed = []\<rparr>"

subsection \<open>What a row was given by a sampler, in terms of the sampler's state\<close>

text \<open>The count \<open>v\<close> is the one the single genome-level draw holds for the row's genome.\<close>

definition genome_count_seen :: "'g sampler_state \<Rightarrow> amplicon_row \<Rightarrow> nat \<Rightarrow> bool" where
  "genome_count_seen s r v = (\<exists>d. genome_draw s = Some d \<and> map_of d (ref r) = Some v)"

text \<open>The probability \<open>v\<close> is the row's component of the vector cached for its genome.\<close>

definition prob_seen :: "(string \<times> nat) list \<Rightarrow> 'g sampler_state \<Rightarrow> amplicon_row \<Rightarrow> real \<Rightarrow> bool" where
  "prob_seen amps s r v =
     (\<exists>vec. map_of (prob_cache s) (ref r) = Some vec \<and> position amps r < length vec \<and>
            v = vec ! position amps r)"

text \<open>The count \<open>v\<close> is the row's component of the count vector cached for its genome.\<close>

definition count_seen :: "(string \<times> nat) list \<Rightarrow> 'g sampler_state \<Rightarrow> amplicon_row \<Rightarrow> nat \<Rightarrow> bool" where
  "count_seen amps s r v =
     (\<exists>vec. map_of (count_cache s) (ref r) = Some vec \<and> position amps r < length vec \<and>
            v = vec ! position amps r)"

subsection \<open>A concrete allocation\<close>

text \<open>
  Deterministic stand-ins for the two draws: the multinomial gives a third of the
  trials to the second category and the rest to the first, the Dirichlet returns the
  normalised concentrations. The generator state counts the draws.
\<close>

definition example_multinomial :: "nat multinomial" where
  "example_multinomial n p g =
     (case p of
        [] \<Rightarrow> ([], Suc g)
      | [x] \<Rightarrow> ([n], Suc g)
      | x # y # ps \<Rightarrow> ((n - n div 3) # (n div 3) # replicate (length ps) 0, Suc g))"

definition example_dirichlet :: "nat dirichlet" where
  "example_dirichlet a g = (map (\<lambda>x. x / sum_list a) a, Suc g)"

definition example_hyper :: "string \<Rightarrow> nat \<Rightarrow> real" where
  "example_hyper g a = 1"

definition blank_row :: "string \<Rightarrow> nat \<Rightarrow> real \<Rightarrow> amplicon_row" where
  "blank_row g a ab =
     \<lparr>ref = g, amplicon_number = a, abundance = ab, total_n_reads = 0, hyperparameter = 0,
      genome_n_reads = 0, amplicon_prob = 0, n_reads = 0\<rparr>"

definition example_table :: "amplicon_row list" where
  "example_table = [blank_row ''A'' 1 (1 / 2), blank_row ''B'' 1 (1 / 2), blank_row ''A'' 2 (1 / 2)]"

definition example_allocation :: "error + amplicon_row list \<times> nat sampler_state" where
  "example_allocation =
     allocate example_multinomial example_dirichlet example_hyper
       [(''A'', 1 / 2), (''B'', 1 / 2)] 10 example_table 0"

subsection \<open>FASTQ records\<close>

text \<open>The lines of a text in groups of four; the last group holds what is left.\<close>

fun group4 :: "'a list \<Rightarrow> 'a list list" where
  "group4 (a # b # c # d # rest) = [a, b, c, d] # group4 rest"
| "group4 [] = []"
| "group4 [a] = [[a]]"
| "group4 [a, b] = [[a, b]]"
| "group4 [a, b, c] = [[a, b, c]]"

section \<open>Properties\<close>

subsection \<open>Rounding to binary64\<close>

lemma binade_below_range: "- 1022 \<le> binade_below k a \<and> binade_below k a \<le> int k - 1022"
  by (induction k) auto

lemma binade_below_le: "- 1022 < binade_below k a \<Longrightarrow> 2 powi (binade_below k a) \<le> a"
  by (induction k) (auto split: if_splits)

lemma binade_below_max:
  "- 1021 \<le> e \<Longrightarrow> e \<le> int k - 1022 \<Longrightarrow> 2 powi e \<le> a \<Longrightarrow> e \<le> binade_below k a"
proof (induction k)
  case 0
  then show ?case by simp
next
  case (Suc k)
  show ?case
  proof (cases "2 powi (int k - 1021) \<le> a")
    case True
    with Suc.prems show ?thesis by simp
  next
    case False
    with Suc.prems have "e \<noteq> int k - 1021" by auto
    with Suc.prems have "e \<le> int k - 1022" by simp
    with Suc False show ?thesis by simp
  qed
qed

lemma exponent_range: "- 1022 \<le> exponent a" "exponent a \<le> 1023"
  using binade_below_range [of 2045 a] by (simp_all add: exponent_def)

lemma exponent_le: "- 1022 < exponent a \<Longrightarrow> 2 powi (exponent a) \<le> a"
  unfolding exponent_def by (rule binade_below_le)

lemma exponent_max: "- 1022 \<le> e \<Longrightarrow> e \<le> 1023 \<Longrightarrow> 2 powi e \<le> a \<Longrightarrow> e \<le> exponent a"
proof -
  assume a: "- 1022 \<le> e" "e \<le> 1023" "2 powi e \<le> a"
  show ?thesis
  proof (cases "e = - 1022")
    case True
    then show ?thesis using exponent_range(1) [of a] by simp
  next
    case False
    with a have "- 1021 \<le> e" by simp
    then show ?thesis using a binade_below_max [of e 2045 a] by (simp add: exponent_def)
  qed
qed

lemma exponent_less: "exponent a < 1023 \<Longrightarrow> a < 2 powi (exponent a + 1)"
proof (rule ccontr)
  assume l: "exponent a < 1023" and "\<not> a < 2 powi (exponent a + 1)"
  then have "2 powi (exponent a + 1) \<le> a" by simp
  with l exponent_range(1) [of a] have "exponent a + 1 \<le> exponent a"
    by (intro exponent_max) auto
  then show False by simp
qed

lemma exponent_eq:
  assumes "2 powi e \<le> a" "a < 2 powi (e + 1)" "- 1022 \<le> e" "e \<le> 1023"
  shows "exponent a = e"
proof -
  have ge: "e \<le> exponent a" using assms by (intro exponent_max) auto
  have "exponent a \<le> e"
  proof (rule ccontr)
    assume "\<not> exponent a \<le> e"
    then have l: "e + 1 \<le> exponent a" by simp
    then have "- 1022 < exponent a" using assms by simp
    then have "2 powi (exponent a) \<le> a" by (rule exponent_le)
    moreover have "(2::real) powi (e + 1) \<le> 2 powi (exponent a)"
      using l by (intro power_int_increasing) auto
    ultimately show False using assms(2) by simp
  qed
  with ge show ?thesis by simp
qed

lemma ulp_pos: "0 < ulp x"
  by (simp add: ulp_def)

lemma round_half_even_int [simp]: "round_half_even (of_int m) = m"
  by (simp add: round_half_even_def)

lemma round_half_even_le: "q \<le> of_int m \<Longrightarrow> round_half_even q \<le> m"
  unfolding round_half_even_def
  by (auto simp: floor_le_iff)

lemma round_half_even_ge: "of_int m \<le> q \<Longrightarrow> m \<le> round_half_even q"
  unfolding round_half_even_def
  by (auto simp: le_floor_iff) linarith+

lemma round_half_even_err: "\<bar>of_int (round_half_even q) - q\<bar> \<le> 1 / 2"
  unfolding round_half_even_def by (auto simp: abs_le_iff)

lemma round_half_even_minus: "round_half_even (- q) = - round_half_even q"
proof (cases "q \<in> \<int>")
  case True
  then obtain m where "q = of_int m" by (auto elim: Ints_cases)
  then show ?thesis by (simp flip: of_int_minus)
next
  case False
  then have "of_int \<lfloor>q\<rfloor> \<noteq> q" by (metis Ints_of_int)
  then have lo: "of_int \<lfloor>q\<rfloor> < q" using of_int_floor_le [of q] by linarith
  have hi: "q < of_int \<lfloor>q\<rfloor> + 1" by linarith
  have f: "\<lfloor>- q\<rfloor> = - \<lfloor>q\<rfloor> - 1"
  proof (rule floor_unique)
    show "of_int (- \<lfloor>q\<rfloor> - 1) \<le> - q"
      unfolding of_int_diff of_int_minus of_int_1 using hi by linarith
    show "- q < of_int (- \<lfloor>q\<rfloor> - 1) + 1"
      unfolding of_int_diff of_int_minus of_int_1 using lo by linarith
  qed
  show ?thesis
    unfolding round_half_even_def f by auto
qed


lemma scale_pow: "(2::real) ^ n * 2 powi (e - int n) = 2 powi e"
proof -
  have "(2::real) ^ n * 2 powi (e - int n) = 2 powi (int n) * 2 powi (e - int n)" by simp
  also have "\<dots> = 2 powi (int n + (e - int n))" by (rule power_int_add [symmetric]) simp
  finally show ?thesis by simp
qed

lemma above_positive: "p \<le> y \<Longrightarrow> 0 < p \<Longrightarrow> 0 < q \<Longrightarrow> \<not> y \<le> - (q::real)"
  by linarith

lemma exponent_pow_le: "x \<noteq> 0 \<Longrightarrow> 2 powi 1024 \<le> \<bar>x\<bar> \<or> \<bar>x\<bar> < 2 powi (exponent \<bar>x\<bar> + 1)"
proof (cases "exponent \<bar>x\<bar> < 1023")
  case True
  then show ?thesis using exponent_less by blast
next
  case False
  then have e: "exponent \<bar>x\<bar> = 1023" using exponent_range(2) [of "\<bar>x\<bar>"] by simp
  then show ?thesis by auto
qed

text \<open>A value at least a power of two rounds to at least that power.\<close>

lemma round64_lower:
  assumes k: "- 1022 \<le> k" "k \<le> 1023" and a: "2 powi k \<le> a"
  shows "round64 a = PInf \<or> (\<exists>y. round64 a = Fin y \<and> 2 powi k \<le> y)"
proof -
  have apos: "0 < a" using a zero_less_power_int [of "2::real" k] by linarith
  let ?E = "exponent \<bar>a\<bar>"
  have kE: "k \<le> ?E" using k a apos by (intro exponent_max) auto
  have Ea: "2 powi ?E \<le> a"
  proof (cases "- 1022 < ?E")
    case True
    then show ?thesis using exponent_le [of "\<bar>a\<bar>"] apos by simp
  next
    case False
    with kE k have "?E = k" by simp
    with a show ?thesis by simp
  qed
  have u: "ulp a = 2 powi (?E - 52)" by (simp add: ulp_def)
  have "2 ^ 52 * ulp a = 2 powi ?E"
    using scale_pow [of 52 ?E] by (simp add: u)
  then have "2 ^ 52 * ulp a \<le> a" using Ea by simp
  then have "2 ^ 52 \<le> a / ulp a"
    using ulp_pos [of a] by (simp add: pos_le_divide_eq)
  then have "of_int (2 ^ 52) \<le> a / ulp a" by simp
  then have "2 ^ 52 \<le> round_half_even (a / ulp a)" by (rule round_half_even_ge)
  then have "(2::real) ^ 52 \<le> of_int (round_half_even (a / ulp a))"
    by (metis of_int_le_iff of_int_numeral of_int_power)
  then have "2 ^ 52 * ulp a \<le> of_int (round_half_even (a / ulp a)) * ulp a"
    using ulp_pos [of a] by simp
  moreover have "2 ^ 52 * ulp a = 2 powi ?E"
    using scale_pow [of 52 ?E] by (simp add: u)
  moreover have "(2::real) powi k \<le> 2 powi ?E" using kE by (intro power_int_increasing) auto
  ultimately have "2 powi k \<le> of_int (round_half_even (a / ulp a)) * ulp a" by linarith
  then have "\<not> of_int (round_half_even (a / ulp a)) * ulp a \<le> - (2 powi 1024)"
    by (rule above_positive) simp_all
  with \<open>2 powi k \<le> of_int (round_half_even (a / ulp a)) * ulp a\<close> show ?thesis
    unfolding round64_def Let_def by (simp only: if_False split: if_split) blast
qed

lemma round64_overflow:
  assumes "2 powi 1024 \<le> a"
  shows "round64 a = PInf"
proof -
  have p: "(2::real) powi 1023 \<le> 2 powi 1024" by (intro power_int_increasing) auto
  then have apos: "0 < a" using assms zero_less_power_int [of "2::real" 1023] by linarith
  have "1023 \<le> exponent \<bar>a\<bar>" using assms p apos by (intro exponent_max) auto
  then have E: "exponent \<bar>a\<bar> = 1023" using exponent_range(2) [of "\<bar>a\<bar>"] by simp
  have u: "ulp a = 2 powi 971" by (simp add: ulp_def E)
  have "2 ^ 53 * ulp a = 2 powi 1024" using scale_pow [of 53 1024] by (simp add: u)
  then have "2 ^ 53 * ulp a \<le> a" using assms by simp
  then have "2 ^ 53 \<le> a / ulp a"
    using ulp_pos [of a] by (simp add: pos_le_divide_eq)
  then have "of_int (2 ^ 53) \<le> a / ulp a" by simp
  then have "2 ^ 53 \<le> round_half_even (a / ulp a)" by (rule round_half_even_ge)
  then have "(2::real) ^ 53 \<le> of_int (round_half_even (a / ulp a))"
    by (metis of_int_le_iff of_int_numeral of_int_power)
  then have "2 ^ 53 * ulp a \<le> of_int (round_half_even (a / ulp a)) * ulp a"
    using ulp_pos [of a] by simp
  moreover have "2 ^ 53 * ulp a = 2 powi 1024" using scale_pow [of 53 1024] by (simp add: u)
  ultimately show ?thesis by (simp add: round64_def Let_def)
qed

text \<open>A value between 0 and a power of two rounds to a value between 0 and that power.\<close>

lemma round64_upper:
  assumes k: "- 1022 \<le> k" "k \<le> 1023" and a: "0 \<le> a" "a \<le> 2 powi k"
  shows "\<exists>y. round64 a = Fin y \<and> 0 \<le> y \<and> y \<le> 2 powi k"
proof -
  let ?E = "exponent \<bar>a\<bar>"
  have Ek: "?E \<le> k"
  proof (cases "- 1022 < ?E")
    case True
    then have "2 powi ?E \<le> a" using exponent_le [of "\<bar>a\<bar>"] a by simp
    with a have le: "(2::real) powi ?E \<le> 2 powi k" by simp
    show ?thesis
    proof (rule ccontr)
      assume "\<not> ?E \<le> k"
      then have "(2::real) powi k < 2 powi ?E" by (intro power_int_strict_increasing) auto
      with le show False by simp
    qed
  next
    case False
    then show ?thesis using k exponent_range(1) [of "\<bar>a\<bar>"] by simp
  qed
  have u: "ulp a = 2 powi (?E - 52)" by (simp add: ulp_def)
  have split: "(2::real) powi k = 2 powi (k - ?E + 52) * 2 powi (?E - 52)"
    by (simp flip: power_int_add)
  have n: "0 \<le> k - ?E + 52" using Ek by simp
  have "a / ulp a \<le> 2 powi (k - ?E + 52)"
    using a split by (simp add: u pos_divide_le_eq)
  also have "(2::real) powi (k - ?E + 52) = of_int (2 ^ nat (k - ?E + 52))"
    using n by (simp add: power_int_def)
  finally have "round_half_even (a / ulp a) \<le> 2 ^ nat (k - ?E + 52)"
    by (rule round_half_even_le)
  then have "of_int (round_half_even (a / ulp a)) \<le> (2::real) powi (k - ?E + 52)"
    using n by (simp add: power_int_def)
  then have up: "of_int (round_half_even (a / ulp a)) * ulp a \<le> 2 powi k"
    using ulp_pos [of a] split u by (simp add: mult_right_mono)
  have "of_int 0 \<le> a / ulp a" using a ulp_pos [of a] by simp
  then have "0 \<le> round_half_even (a / ulp a)" by (rule round_half_even_ge)
  then have lo: "0 \<le> of_int (round_half_even (a / ulp a)) * ulp a"
    using ulp_pos [of a] by simp
  have "(2::real) powi k < 2 powi 1024" using k by (intro power_int_strict_increasing) auto
  with up lo show ?thesis by (auto simp: round64_def Let_def)
qed

lemma ulp_minus [simp]: "ulp (- x) = ulp x"
  by (simp add: ulp_def)

lemma round64_minus: "round64 (- x) = fneg (round64 x)"
  by (simp add: round64_def Let_def round_half_even_minus)

text \<open>A representable value rounds to itself.\<close>

lemma round64_exact:
  assumes n: "\<bar>n\<bar> < 2 ^ 53" and e: "- 1074 \<le> e" and x: "x = of_int n * 2 powi e"
    and r: "\<bar>x\<bar> < 2 powi 1024"
  shows "round64 x = Fin x"
proof -
  let ?E = "exponent \<bar>x\<bar>"
  have Ee: "?E - 52 \<le> e"
  proof (cases "- 1022 < ?E")
    case True
    then have "2 powi ?E \<le> \<bar>x\<bar>" by (rule exponent_le)
    also have "\<bar>x\<bar> = \<bar>of_int n\<bar> * 2 powi e" by (simp add: x abs_mult)
    also have "\<dots> < 2 ^ 53 * 2 powi e"
    proof -
      have "\<bar>real_of_int n\<bar> < 2 ^ 53" using n by (metis of_int_abs of_int_less_iff of_int_numeral of_int_power)
      then show ?thesis by (simp add: mult_strict_right_mono)
    qed
    also have "\<dots> = 2 powi (e + 53)" using scale_pow [of 53 "e + 53"] by simp
    finally have "(2::real) powi ?E < 2 powi (e + 53)" .
    then have "?E < e + 53"
      by (metis not_le power_int_increasing one_le_numeral linorder_not_less)
    then show ?thesis by simp
  next
    case False
    then have "?E = - 1022" using exponent_range(1) [of "\<bar>x\<bar>"] by simp
    with e show ?thesis by simp
  qed
  have u: "ulp x = 2 powi (?E - 52)" by (simp add: ulp_def)
  have "x / ulp x = of_int n * (2 powi e / 2 powi (?E - 52))"
    unfolding u by (simp add: x)
  also have "\<dots> = of_int n * 2 powi (e - (?E - 52))"
    by (simp add: power_int_diff)
  also have "\<dots> = of_int (n * 2 ^ nat (e - (?E - 52)))"
    using Ee by (simp add: power_int_def)
  finally have q: "x / ulp x = of_int (n * 2 ^ nat (e - (?E - 52)))" .
  have "of_int (round_half_even (x / ulp x)) * ulp x = x / ulp x * ulp x"
    unfolding q round_half_even_int ..
  also have "\<dots> = x" using ulp_pos [of x] by simp
  finally have y: "of_int (round_half_even (x / ulp x)) * ulp x = x" .
  show ?thesis using r by (simp add: round64_def Let_def y abs_less_iff)
qed

lemma round64_not_NaN [simp]: "round64 x \<noteq> NaN"
  by (simp add: round64_def Let_def)

lemma round64_int:
  assumes "\<bar>n\<bar> < 2 ^ 53"
  shows "round64 (of_int n) = Fin (of_int n)"
proof -
  have "\<bar>real_of_int n\<bar> < 2 ^ 53"
    using assms by (metis of_int_abs of_int_less_iff of_int_numeral of_int_power)
  moreover have "(2::real) ^ 53 = 2 powi 53" by simp
  moreover have "(2::real) powi 53 < 2 powi 1024" by (intro power_int_strict_increasing) auto
  ultimately have "\<bar>real_of_int n\<bar> < 2 powi 1024" by linarith
  with assms show ?thesis by (intro round64_exact [where n = n and e = 0]) auto
qed

lemma round64_zero [simp]: "round64 0 = Fin 0"
  using round64_int [of 0] by simp

text \<open>
  The value of \<open>round64\<close> for an argument whose binade is known: what is needed to
  compute it on a given number.
\<close>

lemma round64_binade:
  assumes "2 powi e \<le> \<bar>x\<bar>" "\<bar>x\<bar> < 2 powi (e + 1)" "- 1022 \<le> e" "e \<le> 1023"
  shows "round64 x =
     (let y = of_int (round_half_even (x / 2 powi (e - 52))) * 2 powi (e - 52)
      in if 2 powi 1024 \<le> y then PInf
         else if y \<le> - (2 powi 1024) then NInf
         else Fin y)"
  unfolding round64_def ulp_def exponent_eq [OF assms] ..

subsection \<open>The tolerance and the test of line 234\<close>

lemma TOLERANCE_bounds: "\<exists>t. TOLERANCE = Fin t \<and> 0 \<le> t \<and> t \<le> 1 / 2"
proof -
  have "\<exists>y. round64 (1 / 10 ^ 9) = Fin y \<and> 0 \<le> y \<and> y \<le> 2 powi (- 1)"
    by (rule round64_upper) (simp_all add: power_int_minus)
  then show ?thesis by (simp add: TOLERANCE_def power_int_minus)
qed

lemma differs_above_one:
  assumes "x = PInf \<or> (\<exists>y. x = Fin y \<and> 1 \<le> y)"
  shows "fgt (fabs (fneg x)) TOLERANCE" "fgt (fabs x) TOLERANCE"
proof -
  from TOLERANCE_bounds obtain t where t: "TOLERANCE = Fin t" "t \<le> 1 / 2" by blast
  from assms t(2) show "fgt (fabs (fneg x)) TOLERANCE" "fgt (fabs x) TOLERANCE"
    by (auto simp: fgt_def t(1))
qed

text \<open>A sum at most 0 is at least 1 away from 1, also after rounding.\<close>

lemma differs_nonpositive:
  assumes "fle s (Fin 0)"
  shows "differs_from_one s"
proof (cases s)
  case (Fin a)
  with assms have a: "a \<le> 0" by simp
  have "round64 (1 - a) = PInf \<or> (\<exists>y. round64 (1 - a) = Fin y \<and> 2 powi 0 \<le> y)"
    using a by (intro round64_lower) auto
  then have "round64 (1 - a) = PInf \<or> (\<exists>y. round64 (1 - a) = Fin y \<and> 1 \<le> y)" by simp
  then have "fgt (fabs (fneg (round64 (1 - a)))) TOLERANCE" by (rule differs_above_one)
  moreover have "fsub s (Fin 1) = fneg (round64 (1 - a))"
    using round64_minus [of "1 - a"] by (simp add: fsub_def Fin)
  ultimately show ?thesis by (simp add: differs_from_one_def)
next
  case PInf
  with assms show ?thesis by simp
next
  case NInf
  from TOLERANCE_bounds obtain t where t: "TOLERANCE = Fin t" by blast
  show ?thesis by (simp add: differs_from_one_def fsub_def NInf fgt_def t)
next
  case NaN
  with assms show ?thesis by simp
qed

lemma differs_PInf: "differs_from_one PInf"
proof -
  from TOLERANCE_bounds obtain t where t: "TOLERANCE = Fin t" by blast
  show ?thesis by (simp add: differs_from_one_def fsub_def fgt_def t)
qed

lemma positive_not_nonpositive: "flt (Fin 0) s \<Longrightarrow> \<not> fle s (Fin 0) \<and> s \<noteq> Fin 0"
  by (cases s) auto

text \<open>A sum that passes the test of line 234 is within the tolerance of 1.\<close>

lemma not_differs_within:
  assumes "flt (Fin 0) s" "\<not> differs_from_one s"
  shows "fle (fabs (fsub s (Fin 1))) TOLERANCE"
proof (cases s)
  case (Fin a)
  from TOLERANCE_bounds obtain t where t: "TOLERANCE = Fin t" by blast
  have f: "fsub s (Fin 1) = round64 (a - 1)" by (simp add: fsub_def Fin)
  from assms(2) show ?thesis
    unfolding differs_from_one_def f fgt_def t
    by (cases "round64 (a - 1)") auto
next
  case PInf
  with assms differs_PInf show ?thesis by simp
next
  case NInf
  with assms show ?thesis by simp
next
  case NaN
  with assms show ?thesis by simp
qed

subsection \<open>The division loop\<close>

lemma fdiv_nonzero: "tot \<noteq> Fin 0 \<Longrightarrow> \<exists>q. fdiv v tot = Inr q"
  by (cases tot) auto

lemma divide_all_nonzero:
  assumes "tot \<noteq> Fin 0"
  shows "\<exists>ga'. divide_all tot ga = Inr ga' \<and> map fst ga' = map fst ga \<and>
           list_all2 (\<lambda>v q. fdiv v tot = Inr q) (map snd ga) (map snd ga')"
proof (induction ga)
  case Nil
  then show ?case by simp
next
  case (Cons kv ga)
  obtain k v where kv: "kv = (k, v)" by (cases kv)
  from fdiv_nonzero [OF assms] obtain q where q: "fdiv v tot = Inr q" by blast
  from Cons.IH obtain rest where "divide_all tot ga = Inr rest" "map fst rest = map fst ga"
    "list_all2 (\<lambda>v q. fdiv v tot = Inr q) (map snd ga) (map snd rest)" by blast
  then show ?case by (simp add: kv q)
qed

subsection \<open>The rounding error of sums and quotients\<close>

lemma unit_roundoff_bounds: "0 < unit_roundoff" "unit_roundoff < 1"
  by (simp_all add: unit_roundoff_def power_int_minus)

lemma underflow_unit_pos: "0 < underflow_unit"
  by (simp add: underflow_unit_def)

lemma round64_value:
  "round64 x = Fin y \<Longrightarrow> y = of_int (round_half_even (x / ulp x)) * ulp x"
  by (auto simp: round64_def Let_def split: if_splits)

lemma half_ulp: "ulp x / 2 \<le> unit_roundoff * \<bar>x\<bar> + underflow_unit"
proof (cases "- 1022 < exponent \<bar>x\<bar>")
  case True
  then have le: "2 powi exponent \<bar>x\<bar> \<le> \<bar>x\<bar>" by (rule exponent_le)
  have "2 powi exponent \<bar>x\<bar> = (2::real) ^ 53 * 2 powi (exponent \<bar>x\<bar> - 53)"
    using scale_pow [of 53 "exponent \<bar>x\<bar>"] by simp
  moreover have "2 powi (exponent \<bar>x\<bar> - 52) = (2::real) ^ 1 * 2 powi (exponent \<bar>x\<bar> - 52 - 1)"
    using scale_pow [of 1 "exponent \<bar>x\<bar> - 52"] by simp
  ultimately have "ulp x / 2 = unit_roundoff * 2 powi exponent \<bar>x\<bar>"
    by (simp add: ulp_def unit_roundoff_def power_int_minus)
  also have "\<dots> \<le> unit_roundoff * \<bar>x\<bar>"
    using le unit_roundoff_bounds(1) by simp
  finally show ?thesis using underflow_unit_pos by linarith
next
  case False
  then have e: "exponent \<bar>x\<bar> = - 1022" using exponent_range(1) [of "\<bar>x\<bar>"] by simp
  have "(2::real) powi (- 1074) = 2 ^ 1 * 2 powi (- 1074 - 1)"
    using scale_pow [of 1 "- 1074"] by simp
  then have "ulp x / 2 = underflow_unit" by (simp add: ulp_def e underflow_unit_def)
  moreover have "0 \<le> unit_roundoff * \<bar>x\<bar>" using unit_roundoff_bounds(1) by simp
  ultimately show ?thesis by linarith
qed

lemma round64_err:
  assumes "round64 x = Fin y"
  shows "\<bar>y - x\<bar> \<le> unit_roundoff * \<bar>x\<bar> + underflow_unit"
proof -
  define q where "q = x / ulp x"
  have x: "x = q * ulp x" using ulp_pos [of x] by (simp add: q_def)
  have y: "y = of_int (round_half_even q) * ulp x"
    using round64_value [OF assms] by (simp add: q_def)
  have "y - x = (of_int (round_half_even q) - q) * ulp x"
    using x y by (simp add: algebra_simps)
  then have "\<bar>y - x\<bar> = \<bar>of_int (round_half_even q) - q\<bar> * ulp x"
    using ulp_pos [of x] by (simp add: abs_mult)
  also have "\<dots> \<le> 1 / 2 * ulp x"
    using round_half_even_err [of q] ulp_pos [of x] by (intro mult_right_mono) simp_all
  finally show ?thesis using half_ulp [of x] by simp
qed

lemma round64_nonneg:
  assumes "0 \<le> x" "round64 x = Fin y"
  shows "0 \<le> y"
proof -
  have "of_int 0 \<le> x / ulp x" using assms(1) ulp_pos [of x] by simp
  then have "0 \<le> round_half_even (x / ulp x)" by (rule round_half_even_ge)
  then show ?thesis using round64_value [OF assms(2)] ulp_pos [of x] by simp
qed

lemma fadd_step:
  assumes "0 \<le> x" "round64 x = Fin c'"
  shows "0 \<le> c'" "(1 - unit_roundoff) * x - underflow_unit \<le> c'" "c' \<le> (1 + unit_roundoff) * x + underflow_unit"
proof -
  show "0 \<le> c'" using assms by (rule round64_nonneg)
  define ux where "ux = unit_roundoff * x"
  have "\<bar>c' - x\<bar> \<le> ux + underflow_unit"
    using round64_err [OF assms(2)] assms(1) by (simp add: ux_def)
  then have e: "x - ux - underflow_unit \<le> c'" "c' \<le> x + ux + underflow_unit" by linarith+
  have "(1 - unit_roundoff) * x = x - ux" "(1 + unit_roundoff) * x = x + ux"
    by (simp_all add: ux_def algebra_simps)
  with e show "(1 - unit_roundoff) * x - underflow_unit \<le> c'" "c' \<le> (1 + unit_roundoff) * x + underflow_unit"
    by simp_all
qed

lemma sum_step_upper:
  fixes u :: real
  assumes "0 < u" "0 \<le> x" "0 \<le> S" "0 \<le> n" "0 < h" "c' \<le> (1 + u) * x + h"
  shows "c' + S + n * h \<le> (1 + u) * (x + S + (n + 1) * h)"
proof -
  have "(1 + u) * (x + S + (n + 1) * h) = (1 + u) * x + h + (S + u * S) + (n * h + u * (n * h)) + u * h"
    by (simp add: algebra_simps)
  moreover have "0 \<le> u * S" "0 \<le> u * (n * h)" "0 \<le> u * h" using assms by simp_all
  ultimately show ?thesis using assms(6) by linarith
qed

lemma sum_step_lower:
  fixes u :: real
  assumes "0 < u" "u < 1" "0 \<le> P" "P \<le> 1" "0 \<le> S" "0 < h" "(1 - u) * x - h \<le> c'"
  shows "(1 - u) * P * (x + S) - (n + 1) * h \<le> P * (c' + S) - n * h"
proof -
  have "P * ((1 - u) * x - h + S) \<le> P * (c' + S)"
    using assms(7) assms(3) by (intro mult_left_mono) simp_all
  moreover have "P * ((1 - u) * x - h + S) = (1 - u) * P * x - P * h + P * S"
    by (simp add: algebra_simps)
  moreover have "P * h \<le> h" using assms by (simp add: mult_le_cancel_right2)
  moreover have "(1 - u) * P * S \<le> P * S"
  proof -
    have "0 \<le> u * (P * S)" using assms by simp
    then show ?thesis by (simp add: algebra_simps)
  qed
  moreover have "(1 - u) * P * (x + S) = (1 - u) * P * x + (1 - u) * P * S"
    by (simp add: algebra_simps)
  ultimately show ?thesis by (simp add: algebra_simps)
qed

lemma round64_nonneg_cases:
  assumes "0 \<le> x"
  shows "round64 x = PInf \<or> (\<exists>y. round64 x = Fin y)"
proof -
  have "of_int 0 \<le> x / ulp x" using assms ulp_pos [of x] by simp
  then have "0 \<le> round_half_even (x / ulp x)" by (rule round_half_even_ge)
  then have "0 \<le> of_int (round_half_even (x / ulp x)) * ulp x" using ulp_pos [of x] by simp
  moreover have "0 < (2::real) powi 1024" by simp
  ultimately have "\<not> of_int (round_half_even (x / ulp x)) * ulp x \<le> - (2 powi 1024)"
    by linarith
  then show ?thesis unfolding round64_def Let_def by (simp only: if_False split: if_split) blast
qed

lemma foldl_fadd_PInf: "foldl fadd PInf (map Fin as) = PInf"
  by (induction as) simp_all

text \<open>
  The computed sum of non-negative values, started from a non-negative value: when it
  is finite it is within \<open>n\<close> roundings of the exact sum.
\<close>

lemma fsum_fin_bounds:
  fixes as :: "real list"
  assumes "\<forall>a \<in> set as. 0 \<le> a" "0 \<le> c" "foldl fadd (Fin c) (map Fin as) = Fin s"
  shows "0 \<le> s \<and>
         (1 - unit_roundoff) ^ length as * (c + sum_list as) - real (length as) * underflow_unit \<le> s \<and>
         s \<le> (1 + unit_roundoff) ^ length as * (c + sum_list as + real (length as) * underflow_unit)"
  using assms
proof (induction as arbitrary: c)
  case Nil
  then show ?case by simp
next
  case (Cons a as)
  define u where "u = unit_roundoff"
  define h where "h = underflow_unit"
  define n where "n = real (length as)"
  define S where "S = sum_list as"
  define x where "x = c + a"
  define P where "P = (1 - u) ^ length as"
  define Q where "Q = (1 + u) ^ length as"
  have u: "0 < u" "u < 1" using unit_roundoff_bounds by (simp_all add: u_def)
  have h: "0 < h" using underflow_unit_pos by (simp add: h_def)
  have n: "0 \<le> n" by (simp add: n_def)
  have S: "0 \<le> S" using Cons.prems(1) by (simp add: S_def sum_list_nonneg)
  have x: "0 \<le> x" using Cons.prems(1,2) by (simp add: x_def)
  have P: "0 \<le> P" "P \<le> 1" using u by (simp_all add: P_def power_le_one)
  have Q: "1 \<le> Q" using u by (simp add: Q_def one_le_power)
  from Cons.prems(3) have f: "foldl fadd (round64 x) (map Fin as) = Fin s" by (simp add: x_def)
  from round64_nonneg_cases [OF x] f obtain c' where c': "round64 x = Fin c'"
    by (auto simp: foldl_fadd_PInf)
  from fadd_step [OF x c'] have st: "0 \<le> c'" "(1 - u) * x - h \<le> c'" "c' \<le> (1 + u) * x + h"
    by (simp_all add: u_def h_def)
  from f c' have "foldl fadd (Fin c') (map Fin as) = Fin s" by simp
  from Cons.IH [OF _ st(1) this] Cons.prems(1) have
    s: "0 \<le> s" "P * (c' + S) - n * h \<le> s" "s \<le> Q * (c' + S + n * h)"
    by (auto simp: u_def P_def Q_def S_def n_def h_def)
  have "Q * (c' + S + n * h) \<le> Q * ((1 + u) * (x + S + (n + 1) * h))"
    using sum_step_upper [OF u(1) x S n h st(3)] Q by (intro mult_left_mono) simp_all
  with s(3) have up: "s \<le> (1 + u) * Q * (x + S + (n + 1) * h)" by (simp add: algebra_simps)
  from sum_step_lower [OF u P S h st(2), of n] s(2)
  have low: "(1 - u) * P * (x + S) - (n + 1) * h \<le> s" by linarith
  have "(1 - unit_roundoff) ^ length (a # as) * (c + sum_list (a # as)) - real (length (a # as)) * underflow_unit
        = (1 - u) * P * (x + S) - (n + 1) * h"
    by (simp add: u_def P_def x_def S_def n_def h_def algebra_simps)
  moreover have "(1 + unit_roundoff) ^ length (a # as) * (c + sum_list (a # as) + real (length (a # as)) * underflow_unit)
        = (1 + u) * Q * (x + S + (n + 1) * h)"
    by (simp add: u_def Q_def x_def S_def n_def h_def algebra_simps)
  ultimately show ?case using s(1) low up by auto
qed

text \<open>The computed sum is finite when the exact one is far enough from the largest value.\<close>

lemma fsum_finite:
  fixes as :: "real list"
  assumes "\<forall>a \<in> set as. 0 \<le> a" "0 \<le> c"
    and "(1 + unit_roundoff) ^ length as * (c + sum_list as + real (length as) * underflow_unit) \<le> 2 powi 1023"
  shows "\<exists>s. foldl fadd (Fin c) (map Fin as) = Fin s"
  using assms
proof (induction as arbitrary: c)
  case Nil
  then show ?case by simp
next
  case (Cons a as)
  define u where "u = unit_roundoff"
  define h where "h = underflow_unit"
  define n where "n = real (length as)"
  define S where "S = sum_list as"
  define x where "x = c + a"
  define Q where "Q = (1 + u) ^ length as"
  define T where "T = x + S + (n + 1) * h"
  have u: "0 < u" "u < 1" using unit_roundoff_bounds by (simp_all add: u_def)
  have h: "0 < h" using underflow_unit_pos by (simp add: h_def)
  have n: "0 \<le> n" by (simp add: n_def)
  have S: "0 \<le> S" using Cons.prems(1) by (simp add: S_def sum_list_nonneg)
  have x: "0 \<le> x" using Cons.prems(1,2) by (simp add: x_def)
  have Q: "1 \<le> Q" using u by (simp add: Q_def one_le_power)
  have nh: "0 \<le> n * h" using n h by simp
  have T: "0 \<le> T" "x \<le> T" using x S nh h by (simp_all add: T_def algebra_simps)
  have prem: "(1 + u) * Q * T \<le> 2 powi 1023"
    using Cons.prems(3) by (simp add: u_def Q_def T_def x_def S_def n_def h_def algebra_simps)
  have "T \<le> Q * T" using Q T(1) by (simp add: mult_le_cancel_right1)
  also have "\<dots> \<le> (1 + u) * (Q * T)"
  proof -
    have "0 \<le> u * (Q * T)" using u Q T(1) by simp
    then show ?thesis by (simp add: algebra_simps)
  qed
  finally have "x \<le> 2 powi 1023" using prem T(2) by (simp add: mult.assoc)
  with x obtain c' where c': "round64 x = Fin c'"
    using round64_upper [of 1023 x] by auto
  from fadd_step [OF x c'] have st: "0 \<le> c'" "c' \<le> (1 + u) * x + h"
    by (simp_all add: u_def h_def)
  have "Q * (c' + S + n * h) \<le> Q * ((1 + u) * T)"
    using sum_step_upper [OF u(1) x S n h st(2)] Q unfolding T_def by (intro mult_left_mono) simp_all
  then have "Q * (c' + S + n * h) \<le> (1 + u) * Q * T" by (simp add: algebra_simps)
  with prem have "(1 + unit_roundoff) ^ length as * (c' + sum_list as + real (length as) * underflow_unit) \<le> 2 powi 1023"
    by (simp add: u_def Q_def S_def n_def h_def)
  from Cons.IH [OF _ st(1) this] Cons.prems(1) obtain s where
    "foldl fadd (Fin c') (map Fin as) = Fin s" by auto
  then show ?case using c' by (simp add: x_def)
qed

text \<open>The quotients of non-negative values by a positive one, and their exact sum.\<close>

lemma divide_all_bounds:
  fixes as :: "real list"
  assumes "0 < s" "map snd ga = map Fin as" "\<forall>a \<in> set as. 0 \<le> a \<and> a \<le> 2 * s"
  shows "\<exists>bs. divide_all (Fin s) ga = Inr (zip (map fst ga) (map Fin bs)) \<and>
           length bs = length as \<and> (\<forall>b \<in> set bs. 0 \<le> b) \<and>
           (1 - unit_roundoff) * (sum_list as / s) - real (length as) * underflow_unit \<le> sum_list bs \<and>
           sum_list bs \<le> (1 + unit_roundoff) * (sum_list as / s) + real (length as) * underflow_unit"
  using assms(2,3)
proof (induction ga arbitrary: as)
  case Nil
  then show ?case by simp
next
  case (Cons kv ga)
  obtain k v where kv: "kv = (k, v)" by (cases kv)
  from Cons.prems(1) obtain a as' where as: "as = a # as'" "v = Fin a" "map snd ga = map Fin as'"
    by (auto simp: kv map_eq_Cons_conv)
  from Cons.prems(2) have a: "0 \<le> a" "a \<le> 2 * s" and rest: "\<forall>a \<in> set as'. 0 \<le> a \<and> a \<le> 2 * s"
    by (simp_all add: as)
  have q: "0 \<le> a / s" "a / s \<le> 2 powi 1" using a assms(1) by (simp_all add: pos_divide_le_eq)
  then obtain b where b: "round64 (a / s) = Fin b"
    using round64_upper [of 1 "a / s"] by auto
  from fadd_step [OF q(1) b] have st: "0 \<le> b"
    "(1 - unit_roundoff) * (a / s) - underflow_unit \<le> b" "b \<le> (1 + unit_roundoff) * (a / s) + underflow_unit" .
  from Cons.IH [OF as(3) rest] obtain bs where bs:
    "divide_all (Fin s) ga = Inr (zip (map fst ga) (map Fin bs))" "length bs = length as'"
    "\<forall>b \<in> set bs. 0 \<le> b"
    "(1 - unit_roundoff) * (sum_list as' / s) - real (length as') * underflow_unit \<le> sum_list bs"
    "sum_list bs \<le> (1 + unit_roundoff) * (sum_list as' / s) + real (length as') * underflow_unit"
    by blast
  have d: "divide_all (Fin s) (kv # ga) = Inr (zip (map fst (kv # ga)) (map Fin (b # bs)))"
    using assms(1) b bs(1) by (simp add: kv as)
  define r1 where "r1 = a / s"
  define r2 where "r2 = sum_list as' / s"
  define m where "m = real (length as') * underflow_unit"
  have split: "sum_list as / s = r1 + r2"
    by (simp add: as add_divide_distrib r1_def r2_def)
  have len: "real (length as) * underflow_unit = m + underflow_unit"
    by (simp add: as m_def algebra_simps)
  have dl: "(1 - unit_roundoff) * (r1 + r2) = (1 - unit_roundoff) * r1 + (1 - unit_roundoff) * r2"
    and dr: "(1 + unit_roundoff) * (r1 + r2) = (1 + unit_roundoff) * r1 + (1 + unit_roundoff) * r2"
    by (simp_all add: ring_distribs)
  have "(1 - unit_roundoff) * (sum_list as / s) - real (length as) * underflow_unit \<le> sum_list (b # bs)"
    unfolding split len dl using st(2) bs(4) by (simp add: r1_def r2_def m_def)
  moreover have "sum_list (b # bs) \<le> (1 + unit_roundoff) * (sum_list as / s) + real (length as) * underflow_unit"
    unfolding split len dr using st(3) bs(5) by (simp add: r1_def r2_def m_def)
  moreover have "length (b # bs) = length as" "\<forall>b \<in> set (b # bs). 0 \<le> b"
    using bs(2,3) st(1) by (simp_all add: as)
  ultimately show ?case using d by blast
qed

lemma power_bounds:
  fixes n :: nat
  assumes "n \<le> 100000"
  shows "1 - 2 powi (- 36) \<le> (1 - unit_roundoff) ^ n" "(1 - unit_roundoff) ^ n \<le> 1"
    "1 \<le> (1 + unit_roundoff) ^ n" "(1 + unit_roundoff) ^ n \<le> 1 + 2 powi (- 35)"
proof -
  define u where "u = unit_roundoff"
  have u: "0 < u" "u < 1" using unit_roundoff_bounds by (simp_all add: u_def)
  have "1 + real n * (- u) \<le> (1 + (- u)) ^ n"
    using u by (intro Bernoulli_inequality) simp
  moreover have "real n * u \<le> 100000 * u" using assms u by simp
  moreover have "100000 * u \<le> 2 powi (- 36)"
    by (simp add: u_def unit_roundoff_def power_int_minus)
  ultimately show low: "1 - 2 powi (- 36) \<le> (1 - unit_roundoff) ^ n"
    by (simp add: u_def)
  show "(1 - unit_roundoff) ^ n \<le> 1" using unit_roundoff_bounds by (simp add: power_le_one)
  show Q1: "1 \<le> (1 + unit_roundoff) ^ n" using unit_roundoff_bounds by (simp add: one_le_power)
  have "(1 + u) * (1 - u) = 1 - u * u" by (simp add: algebra_simps)
  moreover have "0 \<le> u * u" "u * u \<le> 1" using u by (simp_all add: mult_le_one)
  ultimately have "0 \<le> (1 + u) * (1 - u)" "(1 + u) * (1 - u) \<le> 1" by simp_all
  then have "((1 + u) * (1 - u)) ^ n \<le> 1" by (rule power_le_one)
  then have QP: "(1 + u) ^ n * (1 - u) ^ n \<le> 1" by (simp add: power_mult_distrib)
  have "(1 + u) ^ n * (1 - 2 powi (- 36)) \<le> (1 + u) ^ n * (1 - u) ^ n"
    using low Q1 by (intro mult_left_mono) (simp_all add: u_def)
  with QP have "(1 + u) ^ n * (1 - 2 powi (- 36)) \<le> 1" by linarith
  moreover have "(0::real) < 1 - 2 powi (- 36)" by (simp add: power_int_minus)
  ultimately have "(1 + u) ^ n \<le> 1 / (1 - 2 powi (- 36))" by (simp add: pos_le_divide_eq)
  also have "\<dots> \<le> 1 + 2 powi (- 35)" by (simp add: power_int_minus)
  finally show "(1 + unit_roundoff) ^ n \<le> 1 + 2 powi (- 35)" by (simp add: u_def)
qed

lemma underflow_unit_bounds:
  fixes n :: nat
  assumes "n \<le> 100000"
  shows "real n * underflow_unit \<le> 2 powi (- 1058)" "real n * underflow_unit \<le> 2 powi (- 58)"
proof -
  have "real n * underflow_unit \<le> 2 ^ 17 * underflow_unit" using assms underflow_unit_pos by (intro mult_right_mono) simp_all
  also have "\<dots> = 2 powi (- 1058)" using scale_pow [of 17 "- 1058"] by (simp add: underflow_unit_def)
  finally show a: "real n * underflow_unit \<le> 2 powi (- 1058)" .
  have "(2::real) powi (- 1058) \<le> 2 powi (- 58)" by (intro power_int_increasing) simp_all
  with a show "real n * underflow_unit \<le> 2 powi (- 58)" by linarith
qed

lemma elem_le_sum_list:
  fixes as :: "real list"
  shows "\<forall>a \<in> set as. 0 \<le> a \<Longrightarrow> x \<in> set as \<Longrightarrow> x \<le> sum_list as"
proof (induction as)
  case Nil
  then show ?case by simp
next
  case (Cons a as)
  then have "0 \<le> sum_list as" "0 \<le> a" by (simp_all add: sum_list_nonneg)
  with Cons show ?case by auto
qed

lemma TOLERANCE_lower: "\<exists>t. TOLERANCE = Fin t \<and> 2 powi (- 30) \<le> t"
proof -
  have "round64 (1 / 10 ^ 9) = PInf \<or> (\<exists>y. round64 (1 / 10 ^ 9) = Fin y \<and> 2 powi (- 30) \<le> y)"
    by (rule round64_lower) (simp_all add: power_int_minus)
  with TOLERANCE_bounds show ?thesis by (auto simp: TOLERANCE_def)
qed

text \<open>A sum within \<open>2 powi (- 32)\<close> of 1 passes the test of line 234.\<close>

lemma close_to_one_passes:
  assumes "\<bar>s - 1\<bar> \<le> 2 powi (- 32)"
  shows "\<not> differs_from_one (Fin s)"
proof -
  from TOLERANCE_lower obtain t where t: "TOLERANCE = Fin t" "2 powi (- 30) \<le> t" by blast
  have lt: "(2::real) powi (- 32) < 2 powi (- 30)" by (intro power_int_strict_increasing) simp_all
  have "\<exists>y. round64 \<bar>s - 1\<bar> = Fin y \<and> 0 \<le> y \<and> y \<le> 2 powi (- 32)"
    using assms by (intro round64_upper) simp_all
  then obtain y where y: "round64 \<bar>s - 1\<bar> = Fin y" "0 \<le> y" "y \<le> 2 powi (- 32)" by blast
  have "fabs (round64 (s - 1)) = Fin y"
  proof (cases "0 \<le> s - 1")
    case True
    with y show ?thesis by simp
  next
    case False
    then have a: "\<bar>s - 1\<bar> = - (s - 1)" by simp
    have m: "round64 (- (s - 1)) = fneg (round64 (s - 1))" by (rule round64_minus)
    from y(1) have "fneg (round64 (s - 1)) = Fin y" unfolding a m .
    then show ?thesis using y(2) by (cases "round64 (s - 1)") auto
  qed
  then show ?thesis
    using y(3) t(2) lt by (simp add: differs_from_one_def fsub_def fgt_def t(1))
qed

text \<open>
  What rounding leaves of the claim for weights that are non-negative: up to 100000
  of them, with a finite computed sum that is not underflow_unit, are rescaled to weights whose
  computed sum is within \<open>2 powi (- 32)\<close> of 1, well inside the tolerance.
\<close>

lemma rescaled_sum_within_tolerance:
  fixes as :: "real list"
  assumes vals: "map snd ga = map Fin as" and nonneg: "\<forall>a \<in> set as. 0 \<le> a"
    and len: "length ga \<le> 100000"
    and sum: "abundance_sum ga = Fin s" and big: "2 powi (- 1000) \<le> s"
    and d: "differs_from_one (abundance_sum ga)"
  shows "\<exists>ga' s'. normalise_abundances ga = Inr ga' \<and> abundance_sum ga' = Fin s' \<and>
           \<bar>s' - 1\<bar> \<le> 2 powi (- 32) \<and> \<not> differs_from_one (abundance_sum ga')"
proof -
  define n where "n = length as"
  define A where "A = sum_list as"
  define P where "P = (1 - unit_roundoff) ^ n"
  define Q where "Q = (1 + unit_roundoff) ^ n"
  define tau where "tau = real n * underflow_unit"
  define u where "u = unit_roundoff"
  have n: "n = length ga" using vals unfolding n_def by (metis length_map)
  then have n': "n \<le> 100000" using len by simp
  have s: "0 < s" using big zero_less_power_int [of "2::real" "- 1000"] by linarith
  have u: "0 < u" "u \<le> 2 powi (- 53)" by (simp_all add: u_def unit_roundoff_def)
  have PQ: "1 - 2 powi (- 36) \<le> P" "P \<le> 1" "1 \<le> Q" "Q \<le> 1 + 2 powi (- 35)"
    using power_bounds [OF n'] by (simp_all add: P_def Q_def)
  have tau: "0 \<le> tau" "tau \<le> 2 powi (- 58)" "tau \<le> 2 powi (- 58) * s"
  proof -
    show "0 \<le> tau" using underflow_unit_pos by (simp add: tau_def)
    show "tau \<le> 2 powi (- 58)" using underflow_unit_bounds(2) [OF n'] by (simp add: tau_def)
    have "(2::real) powi (- 58) * 2 powi (- 1000) = 2 powi (- 1058)"
      by (simp flip: power_int_add)
    moreover have "(2::real) powi (- 58) * 2 powi (- 1000) \<le> 2 powi (- 58) * s"
      using big by (intro mult_left_mono) simp_all
    ultimately show "tau \<le> 2 powi (- 58) * s" using underflow_unit_bounds(1) [OF n'] by (simp add: tau_def)
  qed
  have A: "0 \<le> A" using nonneg by (simp add: A_def sum_list_nonneg)
  have "foldl fadd (Fin 0) (map Fin as) = Fin s"
    using sum vals by (simp add: abundance_sum_def)
  from fsum_fin_bounds [OF nonneg _ this]
  have sb: "P * A - tau \<le> s" "s \<le> Q * (A + tau)"
    by (simp_all add: P_def Q_def A_def tau_def n_def)
  have Aup: "A \<le> (1 + 2 powi (- 35)) * s"
  proof -
    have "(1 - 2 powi (- 36)) * A \<le> P * A" using PQ(1) A by (intro mult_right_mono)
    also have "\<dots> \<le> s + 2 powi (- 58) * s" using sb(1) tau(3) by linarith
    also have "\<dots> \<le> (1 - 2 powi (- 36)) * ((1 + 2 powi (- 35)) * s)"
    proof -
      have "(1::real) + 2 powi (- 58) \<le> (1 - 2 powi (- 36)) * (1 + 2 powi (- 35))"
        by (simp add: power_int_minus)
      then have "(1 + 2 powi (- 58)) * s \<le> ((1 - 2 powi (- 36)) * (1 + 2 powi (- 35))) * s"
        using s by (intro mult_right_mono) simp_all
      then show ?thesis by (simp add: algebra_simps)
    qed
    finally show ?thesis by (simp add: power_int_minus)
  qed
  have Alow: "(1 - 2 powi (- 34)) * s \<le> A"
  proof -
    have "s \<le> (1 + 2 powi (- 35)) * (A + tau)"
    proof -
      have "Q * (A + tau) \<le> (1 + 2 powi (- 35)) * (A + tau)"
        using PQ(4) A tau(1) by (intro mult_right_mono) simp_all
      with sb(2) show ?thesis by linarith
    qed
    then have "(1 - 2 powi (- 35)) * s \<le> (1 - 2 powi (- 35)) * ((1 + 2 powi (- 35)) * (A + tau))"
      by (intro mult_left_mono) (simp_all add: power_int_minus)
    also have "\<dots> = (1 - 2 powi (- 35) * 2 powi (- 35)) * (A + tau)"
      by (simp add: algebra_simps)
    also have "\<dots> \<le> 1 * (A + tau)"
      using A tau(1) by (intro mult_right_mono) simp_all
    finally have "(1 - 2 powi (- 35)) * s \<le> A + 2 powi (- 58) * s" using tau(3) by simp
    then have "(1 - 2 powi (- 35) - 2 powi (- 58)) * s \<le> A" by (simp add: algebra_simps)
    moreover have "(1 - 2 powi (- 34)) * s \<le> (1 - 2 powi (- 35) - 2 powi (- 58)) * s"
      using s by (intro mult_right_mono) (simp_all add: power_int_minus)
    ultimately show ?thesis by linarith
  qed
  define r where "r = A / s"
  have r: "1 - 2 powi (- 34) \<le> r" "r \<le> 1 + 2 powi (- 35)"
    using Aup Alow s by (simp_all add: r_def pos_le_divide_eq pos_divide_le_eq)
  have each: "\<forall>a \<in> set as. 0 \<le> a \<and> a \<le> 2 * s"
  proof
    fix a assume a: "a \<in> set as"
    then have "a \<le> A" unfolding A_def using nonneg by (intro elem_le_sum_list)
    moreover have "(1 + 2 powi (- 35)) * s \<le> 2 * s"
      using s by (intro mult_right_mono) (simp_all add: power_int_minus)
    ultimately show "0 \<le> a \<and> a \<le> 2 * s" using Aup nonneg a by auto
  qed
  from divide_all_bounds [OF s vals each] obtain bs where bs:
    "divide_all (Fin s) ga = Inr (zip (map fst ga) (map Fin bs))" "length bs = n"
    "\<forall>b \<in> set bs. 0 \<le> b"
    "(1 - u) * r - tau \<le> sum_list bs" "sum_list bs \<le> (1 + u) * r + tau"
    by (auto simp: n_def u_def r_def A_def tau_def)
  define ga' where "ga' = zip (map fst ga) (map Fin bs)"
  define B where "B = sum_list bs"
  have norm: "normalise_abundances ga = Inr ga'"
    using d s bs(1) by (simp add: normalise_abundances_def sum Let_def ga'_def)
  have snd': "map snd ga' = map Fin bs"
    using bs(2) n by (simp add: ga'_def)
  have Bup: "B \<le> 1 + 2 powi (- 34)"
  proof -
    have "(1 + u) * r \<le> (1 + 2 powi (- 53)) * (1 + 2 powi (- 35))"
      using u r by (intro mult_mono) (simp_all add: power_int_minus)
    also have "\<dots> + 2 powi (- 58) \<le> 1 + 2 powi (- 34)" by (simp add: power_int_minus)
    finally show ?thesis using bs(5) tau(2) by (simp add: B_def)
  qed
  have Blow: "1 - 2 powi (- 33) \<le> B"
  proof -
    have "(1 - 2 powi (- 53)) * (1 - 2 powi (- 34)) \<le> (1 - u) * r"
      using u r by (intro mult_mono) (simp_all add: power_int_minus)
    moreover have "(1::real) - 2 powi (- 33) \<le> (1 - 2 powi (- 53)) * (1 - 2 powi (- 34)) - 2 powi (- 58)"
      by (simp add: power_int_minus)
    ultimately show ?thesis using bs(4) tau(2) by (simp add: B_def)
  qed
  have B0: "0 \<le> B" using bs(3) by (simp add: B_def sum_list_nonneg)
  have "Q * (0 + B + tau) \<le> (1 + 2 powi (- 35)) * (1 + 2 powi (- 34) + 2 powi (- 58))"
    using PQ Bup tau B0 by (intro mult_mono) simp_all
  also have "\<dots> \<le> 1 + 2 powi (- 32)" by (simp add: power_int_minus)
  finally have qb: "Q * (0 + B + tau) \<le> 1 + 2 powi (- 32)" .
  moreover have "(1::real) + 2 powi (- 32) \<le> 2 powi 1023" by (simp add: power_int_minus)
  ultimately have "(1 + unit_roundoff) ^ length bs * (0 + sum_list bs + real (length bs) * underflow_unit) \<le> 2 powi 1023"
    by (simp add: Q_def B_def tau_def bs(2))
  from fsum_finite [OF bs(3) _ this] obtain s' where s': "foldl fadd (Fin 0) (map Fin bs) = Fin s'"
    by auto
  from fsum_fin_bounds [OF bs(3) _ s']
  have sb': "P * B - tau \<le> s'" "s' \<le> Q * (B + tau)"
    by (simp_all add: P_def Q_def B_def tau_def bs(2))
  have up: "s' \<le> 1 + 2 powi (- 32)" using sb'(2) qb by simp
  have low: "1 - 2 powi (- 32) \<le> s'"
  proof -
    have "(1 - 2 powi (- 36)) * (1 - 2 powi (- 33)) \<le> P * B"
      using PQ Blow by (intro mult_mono) (simp_all add: power_int_minus)
    moreover have "(1::real) - 2 powi (- 32) \<le> (1 - 2 powi (- 36)) * (1 - 2 powi (- 33)) - 2 powi (- 58)"
      by (simp add: power_int_minus)
    ultimately show ?thesis using sb'(1) tau(2) by linarith
  qed
  have close: "\<bar>s' - 1\<bar> \<le> 2 powi (- 32)" using up low by linarith
  have sum': "abundance_sum ga' = Fin s'" using s' by (simp add: abundance_sum_def snd')
  from close_to_one_passes [OF close] norm sum' close show ?thesis by auto
qed

subsection \<open>The main script never reaches read generation\<close>

text \<open>
  Claim C1. Whatever the input, the main script fails before any read is generated:
  step 4 calls \<^verbatim>\<open>art_illumina\<close> with five arguments where seven are required, so the
  call raises \<^verbatim>\<open>TypeError\<close> and leaves the world as it found it (no generator call,
  no output file); the script as a whole always ends with an exception, in the world
  reached by the steps before step 4.
\<close>

theorem step4_always_raises:
  "step4 gen shuf cfg templates counts w = (Some TypeError, w) \<and>
   fst (main_script gen shuf prepare step5 cfg genome_abundances w) \<noteq> None \<and>
   snd (main_script gen shuf prepare step5 cfg genome_abundances w) =
     (case normalise_abundances genome_abundances of Inl e \<Rightarrow> w | Inr ga \<Rightarrow> snd (prepare ga w))"
proof -
  have s4: "step4 gen shuf cfg a n v = (Some TypeError, v)" for a n v
    by (simp add: step4_def art_illumina_call_def with_art_illumina_def)
  show ?thesis
    by (auto simp: s4 main_script_def split: sum.splits prod.splits)
qed

theorem step4_always_raises_witness:
  "step4 example_gen example_shuf example_config [''amp/a.fasta''] [5] example_world
     = (Some TypeError, example_world)"
  using step4_always_raises [of example_gen example_shuf example_config "[''amp/a.fasta'']" "[5]" example_world]
  by simp

subsection \<open>The abundance normaliser\<close>

text \<open>The sums of three mappings, as line 234 computes them.\<close>

lemma sum_minus_one: "abundance_sum [(''A'', Fin (- 1))] = Fin (- 1)"
  using round64_int [of "- 1"] by (simp add: abundance_sum_def)

lemma round64_tie_down: "round64 10000000000000001 = Fin 10000000000000000"
  using round64_binade [of 53 10000000000000001]
  by (simp add: round_half_even_def Let_def)

lemma round64_tie_up: "round64 9999999999999999 = Fin 10000000000000000"
  using round64_binade [of 53 9999999999999999]
  by (simp add: round_half_even_def Let_def)

lemma round64_ten_to_16: "round64 10000000000000000 = Fin 10000000000000000"
  using round64_exact [of 152587890625 16 10000000000000000] by simp

lemma round64_half: "round64 (1 / 2) = Fin (1 / 2)"
  using round64_exact [of 1 "- 1" "1 / 2"] by (simp add: power_int_minus)

text \<open>
  The exact sum of these weights is 1, the computed one is 0: adding 1 to
  \<^verbatim>\<open>1e16\<close> is a tie, which goes to the even neighbour \<^verbatim>\<open>1e16\<close>.
\<close>

lemma sum_cancelling:
  "abundance_sum [(''A'', Fin 10000000000000000), (''B'', Fin 1), (''C'', Fin (- 10000000000000000))] = Fin 0"
  by (simp add: abundance_sum_def round64_ten_to_16 round64_tie_down)

text \<open>The exact sum of these weights is negative, the computed one is a half.\<close>

lemma sum_absorbing:
  "abundance_sum [(''A'', Fin 10000000000000000), (''B'', Fin (- 1)),
                  (''C'', Fin (- 10000000000000000)), (''D'', Fin (1 / 2))] = Fin (1 / 2)"
  by (simp add: abundance_sum_def round64_ten_to_16 round64_tie_up round64_half)

text \<open>
  Claim C4. The sum is the one line 234 computes, in binary64 and from left to
  right. A parsed abundance mapping whose weights sum to at most 0 makes the
  normaliser fail with InvalidAbundance, and the script stops there, in the world it
  started from, before the later steps are consulted; a mapping with a positive sum
  does not make the normaliser fail.
\<close>

theorem normaliser_fails_iff_nonpositive_sum:
  "(fle (abundance_sum ga) (Fin 0) \<longrightarrow>
      normalise_abundances ga = Inl InvalidAbundance \<and>
      main_script gen shuf prepare step5 cfg ga w = (Some InvalidAbundance, w)) \<and>
   (flt (Fin 0) (abundance_sum ga) \<longrightarrow> (\<exists>ga'. normalise_abundances ga = Inr ga'))"
proof (intro conjI impI)
  assume "fle (abundance_sum ga) (Fin 0)"
  then have n: "normalise_abundances ga = Inl InvalidAbundance"
    by (simp add: normalise_abundances_def differs_nonpositive InvalidAbundance_def Let_def)
  then show "normalise_abundances ga = Inl InvalidAbundance" .
  from n show "main_script gen shuf prepare step5 cfg ga w = (Some InvalidAbundance, w)"
    by (simp add: main_script_def)
next
  assume pos: "flt (Fin 0) (abundance_sum ga)"
  then have p: "\<not> fle (abundance_sum ga) (Fin 0)" "abundance_sum ga \<noteq> Fin 0"
    using positive_not_nonpositive by blast+
  from divide_all_nonzero [OF p(2)] obtain ga' where "divide_all (abundance_sum ga) ga = Inr ga'"
    by blast
  with p show "\<exists>ga'. normalise_abundances ga = Inr ga'"
    by (simp add: normalise_abundances_def Let_def)
qed

theorem normaliser_fails_iff_nonpositive_sum_witness:
  "fle (abundance_sum [(''A'', Fin (- 1))]) (Fin 0) \<and>
   normalise_abundances [(''A'', Fin (- 1))] = Inl InvalidAbundance \<and>
   fle (abundance_sum [(''A'', Fin 10000000000000000), (''B'', Fin 1),
                       (''C'', Fin (- 10000000000000000))]) (Fin 0) \<and>
   normalise_abundances [(''A'', Fin 10000000000000000), (''B'', Fin 1),
                         (''C'', Fin (- 10000000000000000))] = Inl InvalidAbundance \<and>
   flt (Fin 0) (abundance_sum [(''A'', Fin 10000000000000000), (''B'', Fin (- 1)),
                               (''C'', Fin (- 10000000000000000)), (''D'', Fin (1 / 2))]) \<and>
   (\<exists>ga'. normalise_abundances [(''A'', Fin 10000000000000000), (''B'', Fin (- 1)),
                                 (''C'', Fin (- 10000000000000000)), (''D'', Fin (1 / 2))] = Inr ga')"
proof -
  let ?a = "[(''A'', Fin (- 1))]"
  let ?b = "[(''A'', Fin 10000000000000000), (''B'', Fin 1), (''C'', Fin (- 10000000000000000))]"
  let ?c = "[(''A'', Fin 10000000000000000), (''B'', Fin (- 1)),
             (''C'', Fin (- 10000000000000000)), (''D'', Fin (1 / 2))]"
  have a: "fle (abundance_sum ?a) (Fin 0)" by (simp add: sum_minus_one)
  have b: "fle (abundance_sum ?b) (Fin 0)" by (simp add: sum_cancelling)
  have c: "flt (Fin 0) (abundance_sum ?c)" by (simp add: sum_absorbing)
  from normaliser_fails_iff_nonpositive_sum [of ?a] a
    normaliser_fails_iff_nonpositive_sum [of ?b] b
    normaliser_fails_iff_nonpositive_sum [of ?c] c
  show ?thesis by blast
qed

text \<open>
  Claim C5, as the code has it: a positive sum does not make the rescaled weights
  sum to 1. Two weights \<^verbatim>\<open>2**1023\<close> add up to infinity, which is positive and differs
  from 1; every weight is divided by infinity and becomes 0, and the weights the
  script goes on with sum to 0, which is not within \<^verbatim>\<open>1e-9\<close> of 1.
\<close>

theorem overflowing_sum_gives_zero_weights:
  "abundance_sum [(''A'', Fin (2 ^ 1023)), (''B'', Fin (2 ^ 1023))] = PInf \<and>
   flt (Fin 0) (abundance_sum [(''A'', Fin (2 ^ 1023)), (''B'', Fin (2 ^ 1023))]) \<and>
   normalise_abundances [(''A'', Fin (2 ^ 1023)), (''B'', Fin (2 ^ 1023))] =
     Inr [(''A'', Fin 0), (''B'', Fin 0)] \<and>
   abundance_sum [(''A'', Fin 0), (''B'', Fin 0)] = Fin 0 \<and>
   differs_from_one (abundance_sum [(''A'', Fin 0), (''B'', Fin 0)])"
proof -
  let ?big = "[(''A'', Fin (2 ^ 1023)), (''B'', Fin (2 ^ 1023))]"
  have one: "round64 (2 ^ 1023) = Fin (2 ^ 1023)"
    using round64_exact [of 1 1023 "2 ^ 1023"] by simp
  have two: "round64 (2 ^ 1023 + 2 ^ 1023) = PInf"
    by (rule round64_overflow) simp
  have s: "abundance_sum ?big = PInf"
    using one two by (simp add: abundance_sum_def)
  have z: "abundance_sum [(''A'', Fin 0), (''B'', Fin 0)] = Fin 0"
    by (simp add: abundance_sum_def)
  have d: "differs_from_one (Fin 0)" by (rule differs_nonpositive) simp
  have n: "normalise_abundances ?big = Inr [(''A'', Fin 0), (''B'', Fin 0)]"
    unfolding normalise_abundances_def s by (simp add: differs_PInf)
  from s z d n show ?thesis by simp
qed

text \<open>
  Claim C5, amended. For a mapping whose computed sum is positive: when the sum
  differs from 1 by more than 1e-9, as line 234 tests it, the normaliser ends
  normally with the same genomes in the same order, every weight replaced by its
  binary64 quotient by the computed sum; otherwise the mapping is left as it is, and
  its computed sum is within 1e-9 of 1. The rescaled weights sum to 1 within 1e-9
  when rounding is all that happens: when the weights \<open>ws\<close> are finite and not
  negative, there are at most 100000 of them, and their computed sum is finite and at
  least \<^verbatim>\<open>2**-1000\<close>, the computed sum of the rescaled weights is within
  \<^verbatim>\<open>2**-32\<close> of 1 and passes the test of line 234.
\<close>

theorem normaliser_divides_by_computed_sum:
  assumes "flt (Fin 0) (abundance_sum ga)"
  shows "(differs_from_one (abundance_sum ga) \<longrightarrow>
            (\<exists>ga'. normalise_abundances ga = Inr ga' \<and> map fst ga' = map fst ga \<and>
                   list_all2 (\<lambda>v q. fdiv v (abundance_sum ga) = Inr q) (map snd ga) (map snd ga'))) \<and>
         (\<not> differs_from_one (abundance_sum ga) \<longrightarrow>
            normalise_abundances ga = Inr ga \<and>
            fle (fabs (fsub (abundance_sum ga) (Fin 1))) TOLERANCE) \<and>
         (differs_from_one (abundance_sum ga) \<and>
          map snd ga = map Fin ws \<and> (\<forall>a \<in> set ws. 0 \<le> a) \<and> length ga \<le> 100000 \<and>
          abundance_sum ga = Fin s \<and> 2 powi (- 1000) \<le> s \<longrightarrow>
            (\<exists>ga' s'. normalise_abundances ga = Inr ga' \<and> abundance_sum ga' = Fin s' \<and>
                      \<bar>s' - 1\<bar> \<le> 2 powi (- 32) \<and> \<not> differs_from_one (abundance_sum ga')))"
proof (intro conjI impI)
  assume d: "differs_from_one (abundance_sum ga)"
  from assms have p: "\<not> fle (abundance_sum ga) (Fin 0)" "abundance_sum ga \<noteq> Fin 0"
    using positive_not_nonpositive by blast+
  from d p have "normalise_abundances ga = divide_all (abundance_sum ga) ga"
    by (simp add: normalise_abundances_def Let_def)
  with divide_all_nonzero [OF p(2), of ga]
  show "\<exists>ga'. normalise_abundances ga = Inr ga' \<and> map fst ga' = map fst ga \<and>
          list_all2 (\<lambda>v q. fdiv v (abundance_sum ga) = Inr q) (map snd ga) (map snd ga')"
    by simp
next
  assume d: "\<not> differs_from_one (abundance_sum ga)"
  then show "normalise_abundances ga = Inr ga" by (simp add: normalise_abundances_def)
  from assms d show "fle (fabs (fsub (abundance_sum ga) (Fin 1))) TOLERANCE"
    by (rule not_differs_within)
next
  assume "differs_from_one (abundance_sum ga) \<and>
          map snd ga = map Fin ws \<and> (\<forall>a \<in> set ws. 0 \<le> a) \<and> length ga \<le> 100000 \<and>
          abundance_sum ga = Fin s \<and> 2 powi (- 1000) \<le> s"
  then show "\<exists>ga' s'. normalise_abundances ga = Inr ga' \<and> abundance_sum ga' = Fin s' \<and>
                      \<bar>s' - 1\<bar> \<le> 2 powi (- 32) \<and> \<not> differs_from_one (abundance_sum ga')"
    using rescaled_sum_within_tolerance [of ga ws s] by blast
qed

theorem normaliser_divides_by_computed_sum_witness:
  "flt (Fin 0) (abundance_sum [(''A'', Fin 2), (''B'', Fin 2)]) \<and>
   differs_from_one (abundance_sum [(''A'', Fin 2), (''B'', Fin 2)]) \<and>
   normalise_abundances [(''A'', Fin 2), (''B'', Fin 2)] = Inr [(''A'', Fin (1 / 2)), (''B'', Fin (1 / 2))] \<and>
   flt (Fin 0) (abundance_sum [(''A'', Fin (1 / 2)), (''B'', Fin (1 / 2))]) \<and>
   normalise_abundances [(''A'', Fin (1 / 2)), (''B'', Fin (1 / 2))] = Inr [(''A'', Fin (1 / 2)), (''B'', Fin (1 / 2))] \<and>
   fle (fabs (fsub (abundance_sum [(''A'', Fin (1 / 2)), (''B'', Fin (1 / 2))]) (Fin 1))) TOLERANCE \<and>
   map snd [(''A'', Fin 2), (''B'', Fin 2)] = map Fin [2, 2] \<and>
   length [(''A'', Fin 2), (''B'', Fin 2)] \<le> 100000 \<and>
   abundance_sum [(''A'', Fin 2), (''B'', Fin 2)] = Fin 4 \<and> (2::real) powi (- 1000) \<le> 4 \<and>
   (\<exists>s'. abundance_sum [(''A'', Fin (1 / 2)), (''B'', Fin (1 / 2))] = Fin s' \<and> \<bar>s' - 1\<bar> \<le> 2 powi (- 32)) \<and>
   \<not> differs_from_one (abundance_sum [(''A'', Fin (1 / 2)), (''B'', Fin (1 / 2))])"
proof -
  let ?a = "[(''A'', Fin 2), (''B'', Fin 2)]"
  let ?b = "[(''A'', Fin (1 / 2)), (''B'', Fin (1 / 2))]"
  from TOLERANCE_bounds obtain t where t: "TOLERANCE = Fin t" "0 \<le> t" "t \<le> 1 / 2" by blast
  have sa: "abundance_sum ?a = Fin 4"
    using round64_int [of 2] round64_int [of 4] by (simp add: abundance_sum_def)
  have sb: "abundance_sum ?b = Fin 1"
    using round64_int [of 1] by (simp add: abundance_sum_def round64_half)
  have a: "flt (Fin 0) (abundance_sum ?a)" by (simp add: sa)
  have a': "differs_from_one (abundance_sum ?a)"
    using round64_int [of 3] t(3) by (simp add: sa differs_from_one_def fsub_def fgt_def t(1))
  have b: "flt (Fin 0) (abundance_sum ?b)" by (simp add: sb)
  have b': "\<not> differs_from_one (abundance_sum ?b)"
    using t(2) by (simp add: sb differs_from_one_def fsub_def fgt_def t(1))
  from normaliser_divides_by_computed_sum [OF a] a' obtain ga' where
    n: "normalise_abundances ?a = Inr ga'" and k: "map fst ga' = map fst ?a"
    and l: "list_all2 (\<lambda>v q. fdiv v (abundance_sum ?a) = Inr q) (map snd ?a) (map snd ga')"
    by blast
  from k obtain x y where g: "ga' = [(''A'', x), (''B'', y)]"
    by (auto simp: map_eq_Cons_conv)
  from l have "x = Fin (1 / 2)" "y = Fin (1 / 2)" by (auto simp: g sa round64_half)
  with n g have na: "normalise_abundances ?a = Inr ?b" by simp
  have small: "(2::real) powi (- 1000) \<le> 4"
  proof -
    have "(2::real) powi (- 1000) \<le> 2 powi 2" by (intro power_int_increasing) simp_all
    then show ?thesis by simp
  qed
  have hyp: "differs_from_one (abundance_sum ?a) \<and>
          map snd ?a = map Fin [2, 2] \<and> (\<forall>a \<in> set [2, 2::real]. 0 \<le> a) \<and> length ?a \<le> 100000 \<and>
          abundance_sum ?a = Fin 4 \<and> 2 powi (- 1000) \<le> (4::real)"
    using a' sa small by simp
  from normaliser_divides_by_computed_sum [OF a, of "[2, 2]" 4] hyp na
  have close: "\<exists>s'. abundance_sum ?b = Fin s' \<and> \<bar>s' - 1\<bar> \<le> 2 powi (- 32)"
    by auto
  from normaliser_divides_by_computed_sum [OF b, of ws s] b' have
    unchanged: "normalise_abundances ?b = Inr ?b"
      "fle (fabs (fsub (abundance_sum ?b) (Fin 1))) TOLERANCE" for ws s
    by blast+
  from a a' b b' na unchanged sa small close show ?thesis by simp
qed

subsection \<open>Escaping of genome descriptions and its restoration\<close>

lemma tr_escape_description:
  "tr (escape_description d) =
     map (\<lambda>c. if c = CHR '' '' \<or> c = CHR ''/'' \<or> c = CHR ''&'' then CHR ''/''
               else if c = TAB then NL else c) d"
  by (simp add: tr_def escape_description_def replace_char_def tr_char_def TAB_def NL_def)

text \<open>
  What the translation of the shuffle step gives back is the description exactly
  when the description has no space, no \<^verbatim>\<open>&\<close> and no tab.
\<close>

lemma restoration_exact_iff:
  "tr (escape_description d) = d \<longleftrightarrow> CHR '' '' \<notin> set d \<and> CHR ''&'' \<notin> set d \<and> TAB \<notin> set d"
proof -
  have "tr (escape_description d) = d \<longleftrightarrow>
        (\<forall>c \<in> set d. (if c = CHR '' '' \<or> c = CHR ''/'' \<or> c = CHR ''&'' then CHR ''/''
               else if c = TAB then NL else c) = c)"
    unfolding tr_escape_description by (simp add: map_idI map_eq_conv [where g = "\<lambda>c. c", simplified])
  also have "\<dots> \<longleftrightarrow> CHR '' '' \<notin> set d \<and> CHR ''&'' \<notin> set d \<and> TAB \<notin> set d"
    by (auto simp: TAB_def NL_def)
  finally show ?thesis .
qed

text \<open>
  Claim C10. The genome-splitting step escapes both the space and the slash of a
  description to \<^verbatim>\<open>&\<close>, and the translation of the shuffle step turns every
  \<^verbatim>\<open>&\<close> into a slash. The two together keep the length; at every position where
  the description has a space the result has a slash; so the description comes back
  unchanged only if it has no space.
\<close>

theorem escape_restoration_is_lossy:
  "length (tr (escape_description d)) = length d \<and>
   (\<forall>i < length d. d ! i = CHR '' '' \<longrightarrow> tr (escape_description d) ! i = CHR ''/'') \<and>
   (tr (escape_description d) = d \<longrightarrow> CHR '' '' \<notin> set d)"
proof (intro conjI allI impI)
  show "length (tr (escape_description d)) = length d"
    by (simp add: tr_escape_description)
next
  fix i assume "i < length d" "d ! i = CHR '' ''"
  then show "tr (escape_description d) ! i = CHR ''/''"
    by (simp add: tr_escape_description)
next
  assume eq: "tr (escape_description d) = d"
  show "CHR '' '' \<notin> set d"
  proof
    assume "CHR '' '' \<in> set d"
    then obtain i where i: "i < length d" "d ! i = CHR '' ''"
      by (auto simp: in_set_conv_nth)
    then have "tr (escape_description d) ! i = CHR ''/''"
      by (simp add: tr_escape_description)
    with eq i show False by simp
  qed
qed

theorem escape_restoration_is_lossy_witness:
  "(1::nat) < length ''A B/c'' \<and> ''A B/c'' ! 1 = CHR '' '' \<and>
   tr (escape_description ''A B/c'') ! 1 = CHR ''/'' \<and>
   tr (escape_description ''A B/c'') = ''A/B/c'' \<and>
   tr (escape_description ''A/c'') = ''A/c'' \<and> CHR '' '' \<notin> set ''A/c''"
proof -
  have e: "tr (escape_description ''A/c'') = ''A/c''"
    by (simp add: tr_escape_description TAB_def)
  have f: "tr (escape_description ''A B/c'') = ''A/B/c''"
    by (simp add: tr_escape_description TAB_def)
  from escape_restoration_is_lossy [of "''A B/c''"] escape_restoration_is_lossy [of "''A/c''"] e f
  show ?thesis by simp
qed

subsection \<open>The loop of \<^verbatim>\<open>ArtIllumina.run\<close>: calls and seeds\<close>

lemma run_once_fields:
  "run_once gen self a n pre seed w = (r, w') \<Longrightarrow>
     art_calls w' = art_calls w @ [\<lparr>infile = a, rcount = n, out_prefix = pre, rnd_seed = seed,
                  call_seq_sys = seq_sys self, call_len = read_length self\<rparr>] \<and>
     rng_pos w' = rng_pos w \<and> rng_stream w' = rng_stream w \<and> removed w' = removed w"
  by (auto simp: run_once_def Let_def split: proc_result.splits if_splits)

text \<open>
  A loop that ends without an exception has made one call per pair, in order, the
  \<open>i\<close>-th with the \<open>i\<close>-th value drawn, and has drawn nothing else.
\<close>

lemma run_reads_trace:
  "run_reads gen self ps w = (None, w') \<Longrightarrow>
     art_calls w' = art_calls w @ map2 (call_for self) ps (map (seed_at w) [0..<length ps]) \<and>
     rng_pos w' = rng_pos w + length ps \<and> rng_stream w' = rng_stream w"
proof (induction ps arbitrary: w)
  case Nil
  then show ?case by simp
next
  case (Cons p ps)
  obtain a n where p: "p = (a, n)" by (cases p)
  define w1 where "w1 = w\<lparr>rng_pos := Suc (rng_pos w)\<rparr>"
  define seed where "seed = seed_at w 0"
  have ri: "randint (2 ^ 63) w = (Inr seed, w1)"
    by (simp add: randint_def w1_def seed_def seed_at_def)
  from Cons.prems p ri obtain w2 where
    ro: "run_once gen self a n (join (temp self) ''tmp.sms.'' @ short_name a @ ''.'') seed w1 = (None, w2)"
    and rest: "run_reads gen self ps w2 = (None, w')"
    by (auto split: prod.splits option.splits)
  from run_once_fields [OF ro] have
    c2: "art_calls w2 = art_calls w @ [call_for self p seed]"
    and p2: "rng_pos w2 = Suc (rng_pos w)" and s2: "rng_stream w2 = rng_stream w"
    by (simp_all add: w1_def call_for_def p)
  have shift: "map (seed_at w2) [0..<length ps] = map (seed_at w) (map Suc [0..<length ps])"
    by (simp add: seed_at_def p2 s2)
  have upt: "[0..<length (p # ps)] = 0 # map Suc [0..<length ps]"
    by (simp add: upt_conv_Cons map_Suc_upt del: upt_Suc)
  from Cons.IH [OF rest] show ?case
    unfolding upt by (simp add: c2 p2 s2 shift seed_def)
qed

text \<open>
  Claim C7, as the code has it: the loop has no test on the read count. A pair whose
  count is zero is not skipped: here the only pair has count 0, and the loop ends
  normally having called the generator once, with \<^verbatim>\<open>--rcount 0\<close>, and drawn one seed.
\<close>

theorem zero_count_pair_is_invoked:
  "fst (run_reads example_gen example_self [(''amp/a.fasta'', 0)] example_world) = None \<and>
   map rcount (art_calls (snd (run_reads example_gen example_self [(''amp/a.fasta'', 0)] example_world))) = [0] \<and>
   rng_pos (snd (run_reads example_gen example_self [(''amp/a.fasta'', 0)] example_world)) = 1"
  by (simp add: run_once_def randint_def example_world_def example_gen_def Let_def is_ascii_def)

text \<open>
  Claim C7, amended. For every list of (template, read count) pairs given to the run,
  when the loop ends without an exception every pair, its count zero or not, has
  triggered exactly one generator call, in the order of the list, and exactly one
  seed draw.
\<close>

theorem run_reads_invokes_every_pair:
  assumes "run_reads gen self (zip templates counts) w = (None, w')"
  shows "map (\<lambda>c. (infile c, rcount c)) (drop (length (art_calls w)) (art_calls w')) = zip templates counts \<and>
         length (art_calls w') = length (art_calls w) + length (zip templates counts) \<and>
         rng_pos w' = rng_pos w + length (zip templates counts)"
proof -
  let ?ps = "zip templates counts"
  have "map (\<lambda>c. (infile c, rcount c)) (map2 (call_for self) ps ss) = ps" if "length ss = length ps" for ps ss
    using that by (induction ps ss rule: list_induct2') (auto simp: call_for_def)
  then have "map (\<lambda>c. (infile c, rcount c)) (map2 (call_for self) ?ps (map (seed_at w) [0..<length ?ps])) = ?ps"
    by simp
  with run_reads_trace [OF assms] show ?thesis by simp
qed

theorem run_reads_invokes_every_pair_witness:
  "fst (run_reads example_gen example_self (zip [''amp/a.fasta'', ''amp/b.fasta''] [0, 5]) example_world) = None \<and>
   map (\<lambda>c. (infile c, rcount c))
     (drop (length (art_calls example_world))
        (art_calls (snd (run_reads example_gen example_self (zip [''amp/a.fasta'', ''amp/b.fasta''] [0, 5]) example_world))))
     = [(''amp/a.fasta'', 0), (''amp/b.fasta'', 5)]"
proof -
  let ?r = "run_reads example_gen example_self (zip [''amp/a.fasta'', ''amp/b.fasta''] [0, 5]) example_world"
  have ok: "fst ?r = None"
    by (simp add: run_once_def randint_def example_world_def example_gen_def Let_def is_ascii_def)
  then have "?r = (None, snd ?r)" by (metis prod.collapse)
  from run_reads_invokes_every_pair [OF this] ok show ?thesis by simp
qed

text \<open>
  Claim C8, as the code has it: seeds are drawn independently and nothing compares
  them. When the stream delivers the same value twice, two calls of one run get the
  same seed.
\<close>

theorem seed_value_reused:
  "map rnd_seed (art_calls (snd (run_reads example_gen example_self
      [(''amp/a.fasta'', 10), (''amp/b.fasta'', 10)] repeating_world))) = [5, 5]"
  by (simp add: run_once_def randint_def repeating_world_def example_gen_def Let_def is_ascii_def repeating_stream_def)

text \<open>
  Claim C8, amended. When the loop ends without an exception, the seed of the \<open>i\<close>-th
  generator call is the value drawn at the \<open>i\<close>-th position of the process-wide stream
  after the start of the loop, drawn just before that call; every seed is at least 0
  and below 2^63; the loop draws exactly as many values as it makes calls, so a draw
  serves one call only. The seed values of a run are pairwise different exactly when
  the values drawn are.
\<close>

theorem seeds_follow_the_stream:
  assumes "run_reads gen self (zip templates counts) w = (None, w')"
  shows "map rnd_seed (drop (length (art_calls w)) (art_calls w')) =
           map (seed_at w) [0..<length (zip templates counts)] \<and>
         (\<forall>c \<in> set (drop (length (art_calls w)) (art_calls w')). 0 \<le> rnd_seed c \<and> rnd_seed c < 2 ^ 63) \<and>
         rng_pos w' = rng_pos w + length (zip templates counts) \<and>
         (distinct (map rnd_seed (drop (length (art_calls w)) (art_calls w'))) \<longleftrightarrow>
            inj_on (seed_at w) {..<length (zip templates counts)})"
proof -
  let ?ps = "zip templates counts"
  let ?new = "drop (length (art_calls w)) (art_calls w')"
  have "map rnd_seed (map2 (call_for self) ps ss) = ss" if "length ss = length ps" for ps ss
    using that by (induction ps ss rule: list_induct2') (auto simp: call_for_def)
  then have "map rnd_seed (map2 (call_for self) ?ps (map (seed_at w) [0..<length ?ps])) = map (seed_at w) [0..<length ?ps]"
    by simp
  with run_reads_trace [OF assms] have seeds: "map rnd_seed ?new = map (seed_at w) [0..<length ?ps]"
    and pos: "rng_pos w' = rng_pos w + length ?ps" by simp_all
  have range: "0 \<le> seed_at w i \<and> seed_at w i < 2 ^ 63" for i
    by (simp add: seed_at_def)
  have "\<forall>s \<in> set (map rnd_seed ?new). 0 \<le> s \<and> s < 2 ^ 63"
    unfolding seeds using range by auto
  then have bound: "\<forall>c \<in> set ?new. 0 \<le> rnd_seed c \<and> rnd_seed c < 2 ^ 63" by simp
  have "distinct (map rnd_seed ?new) \<longleftrightarrow> inj_on (seed_at w) {..<length ?ps}"
    unfolding seeds by (simp add: distinct_map atLeast0LessThan)
  with seeds bound pos show ?thesis by blast
qed

theorem seeds_follow_the_stream_witness:
  "fst (run_reads example_gen example_self (zip [''amp/a.fasta'', ''amp/b.fasta''] [0, 5]) example_world) = None \<and>
   map rnd_seed
     (drop (length (art_calls example_world))
        (art_calls (snd (run_reads example_gen example_self (zip [''amp/a.fasta'', ''amp/b.fasta''] [0, 5]) example_world))))
     = [3, 10]"
proof -
  let ?r = "run_reads example_gen example_self (zip [''amp/a.fasta'', ''amp/b.fasta''] [0, 5]) example_world"
  have ok: "fst ?r = None"
    by (simp add: run_once_def randint_def example_world_def example_gen_def Let_def is_ascii_def)
  then have "?r = (None, snd ?r)" by (metis prod.collapse)
  from seeds_follow_the_stream [OF this] ok show ?thesis
    by (simp add: seed_at_def example_world_def example_stream_def upt_conv_Cons)
qed

subsection \<open>The clean-up at the end of the \<^verbatim>\<open>art_illumina\<close> scope\<close>

lemma exists_file_filter:
  "exists_file (filter (\<lambda>e. P (fst e)) t) p \<longleftrightarrow> exists_file t p \<and> P p"
  by (auto simp: exists_file_def)

lemma read_file_filter:
  "read_file (filter (\<lambda>e. P (fst e)) t) p = (if P p then read_file t p else Inl FileNotFoundError)"
  by (induction t) (auto simp: read_file_def)

lemma set_glob_tmp_sms:
  "\<not> has_magic tmp \<Longrightarrow> tmp \<notin> set (unlistable w) \<Longrightarrow>
   set (glob_tmp_sms tmp w) =
     {p. (exists_file (files w) p \<or> p \<in> set (dirs w)) \<and> tmp_sms_match tmp p}"
  by (auto simp: glob_tmp_sms_def exists_file_def)

lemma distinct_glob_tmp_sms:
  "\<not> has_magic tmp \<Longrightarrow> distinct (glob_tmp_sms tmp w)"
  by (simp add: glob_tmp_sms_def)

lemma remove_each_all:
  "distinct ps \<Longrightarrow>
   \<forall>p \<in> set ps. exists_file (files w) p \<and> p \<notin> set (dirs w) \<and> p \<notin> set (protected w) \<Longrightarrow>
   remove_each ps w =
     (None, w\<lparr>files := filter (\<lambda>e. fst e \<notin> set ps) (files w), removed := removed w @ ps\<rparr>)"
proof (induction ps arbitrary: w)
  case Nil
  then show ?case by simp
next
  case (Cons p ps)
  let ?w1 = "w\<lparr>files := filter (\<lambda>e. fst e \<noteq> p) (files w), removed := removed w @ [p]\<rparr>"
  have rm: "os_remove p w = Inr (w\<lparr>files := filter (\<lambda>e. fst e \<noteq> p) (files w)\<rparr>)"
    using Cons.prems by (simp add: os_remove_def)
  have ex: "\<forall>q \<in> set ps. exists_file (files ?w1) q \<and> q \<notin> set (dirs ?w1) \<and> q \<notin> set (protected ?w1)"
    using Cons.prems by (auto simp: exists_file_filter [where P = "\<lambda>q. q \<noteq> p"])
  have d: "distinct ps" using Cons.prems by simp
  have "remove_each ps ?w1 =
     (None, ?w1\<lparr>files := filter (\<lambda>e. fst e \<notin> set ps) (files ?w1), removed := removed ?w1 @ ps\<rparr>)"
    by (rule Cons.IH [OF d ex])
  moreover have "filter (\<lambda>e. fst e \<notin> set ps) (filter (\<lambda>e. fst e \<noteq> p) (files w))
       = filter (\<lambda>e. fst e \<notin> set (p # ps)) (files w)"
    by (auto intro: filter_cong)
  ultimately show ?case using rm by simp
qed

lemma art_illumina_finally_eq:
  assumes magic: "\<not> has_magic tmp"
    and listable: "tmp \<notin> set (unlistable w)"
    and nodirs: "\<forall>p \<in> set (dirs w). \<not> tmp_sms_match tmp p"
    and allowed: "\<forall>p \<in> set (protected w). \<not> tmp_sms_match tmp p"
  shows "art_illumina_finally tmp w =
     (None, w\<lparr>files := filter (\<lambda>e. \<not> tmp_sms_match tmp (fst e)) (files w),
              removed := removed w @ glob_tmp_sms tmp w\<rparr>)"
proof -
  have g: "set (glob_tmp_sms tmp w) = {p. exists_file (files w) p \<and> tmp_sms_match tmp p}"
    using nodirs by (auto simp: set_glob_tmp_sms [OF magic listable])
  have "filter (\<lambda>e. fst e \<notin> set (glob_tmp_sms tmp w)) (files w)
        = filter (\<lambda>e. \<not> tmp_sms_match tmp (fst e)) (files w)"
    by (rule filter_cong) (auto simp: g exists_file_def)
  moreover have "\<forall>p \<in> set (glob_tmp_sms tmp w).
      exists_file (files w) p \<and> p \<notin> set (dirs w) \<and> p \<notin> set (protected w)"
    using nodirs allowed by (auto simp: g)
  moreover have d: "distinct (glob_tmp_sms tmp w)"
    by (rule distinct_glob_tmp_sms [OF magic])
  ultimately show ?thesis
    unfolding art_illumina_finally_def
    using remove_each_all [OF d, of w] by simp
qed

text \<open>
  Claim C6, as the code has it: the clean-up is a loop of \<^verbatim>\<open>os.remove\<close> calls
  without a handler, so the first entry that cannot be removed ends it. In the first
  world the temp directory holds a temporary file that the process may not remove:
  the body ends normally, the scope ends with \<^verbatim>\<open>PermissionError\<close>, nothing has
  been removed and the file is still there. In the second the temp directory holds a
  subdirectory named \<^verbatim>\<open>tmp.sms.d\<close>: it is listed by the pattern, and the scope ends
  with \<^verbatim>\<open>IsADirectoryError\<close> where the body had ended normally.
\<close>

theorem cleanup_stops_at_first_refusal:
  "fst (quiet_body example_self sticky_world) = None \<and>
   fst (with_art_illumina
          (art_illumina_call ''out'' ''example'' 250 ''MSv3'' False (Some ''tmp'') (Some 1000))
          quiet_body sticky_world) = Some PermissionError \<and>
   tmp_sms_match ''tmp'' ''tmp/tmp.sms.old.1.fq'' \<and>
   exists_file
     (files (snd (with_art_illumina
          (art_illumina_call ''out'' ''example'' 250 ''MSv3'' False (Some ''tmp'') (Some 1000))
          quiet_body sticky_world))) ''tmp/tmp.sms.old.1.fq'' \<and>
   removed (snd (with_art_illumina
          (art_illumina_call ''out'' ''example'' 250 ''MSv3'' False (Some ''tmp'') (Some 1000))
          quiet_body sticky_world)) = [] \<and>
   fst (quiet_body example_self nested_world) = None \<and>
   glob_tmp_sms ''tmp'' nested_world = [''tmp/tmp.sms.d''] \<and>
   fst (with_art_illumina
          (art_illumina_call ''out'' ''example'' 250 ''MSv3'' False (Some ''tmp'') (Some 1000))
          quiet_body nested_world) = Some IsADirectoryError"
  by (simp add: with_art_illumina_def art_illumina_call_def quiet_body_def art_illumina_finally_def
      glob_tmp_sms_def has_magic_def tmp_sms_match_def join_def os_remove_def exists_file_def
      sticky_world_def nested_world_def)

text \<open>
  Claim C6, amended. Let the temp directory name have none of the characters
  \<^verbatim>\<open>*\<close>, \<^verbatim>\<open>?\<close>, \<^verbatim>\<open>[\<close>, and when the body of the \<^verbatim>\<open>with\<close> statement ends let the
  directory be listable and every entry of it that matches \<^verbatim>\<open>tmp.sms.*\<close> be a
  regular file that the process may remove. Then, whatever the body does and whether
  it ends normally or with an exception (read generation and shuffling are part of
  the body), the scope ends with the body's own outcome, no file matching
  \<^verbatim>\<open>tmp.sms.*\<close> in the temp directory is left, every such file that was there when
  the body ended has been removed by exactly one \<^verbatim>\<open>os.remove\<close> call, and the other
  files are untouched.
\<close>

theorem scope_exit_removes_removable_temporaries:
  assumes body: "body art w = (rb, wb)"
    and art: "art_illumina_call op pre rl ss vb (Some t) (Some n) = Inr art"
    and scope: "with_art_illumina (art_illumina_call op pre rl ss vb (Some t) (Some n)) body w = (r, w')"
    and magic: "\<not> has_magic t"
    and listable: "t \<notin> set (unlistable wb)"
    and nodirs: "\<forall>p \<in> set (dirs wb). \<not> tmp_sms_match t p"
    and allowed: "\<forall>p \<in> set (protected wb). \<not> tmp_sms_match t p"
  shows "r = rb \<and>
         (\<forall>p. tmp_sms_match t p \<longrightarrow> \<not> exists_file (files w') p) \<and>
         (\<forall>p. \<not> tmp_sms_match t p \<longrightarrow> read_file (files w') p = read_file (files wb) p) \<and>
         removed w' = removed wb @ glob_tmp_sms t wb \<and>
         distinct (glob_tmp_sms t wb) \<and>
         set (glob_tmp_sms t wb) = {p. exists_file (files wb) p \<and> tmp_sms_match t p}"
proof -
  have t: "temp art = t" using art by (auto simp: art_illumina_call_def)
  have g: "set (glob_tmp_sms t wb) = {p. exists_file (files wb) p \<and> tmp_sms_match t p}"
    using nodirs by (auto simp: set_glob_tmp_sms [OF magic listable])
  from scope have "r = rb" and w': "w' = wb\<lparr>files := filter (\<lambda>e. \<not> tmp_sms_match t (fst e)) (files wb),
              removed := removed wb @ glob_tmp_sms t wb\<rparr>"
    by (simp_all add: with_art_illumina_def art body t
        art_illumina_finally_eq [OF magic listable nodirs allowed])
  then show ?thesis
    by (simp add: exists_file_filter [where P = "\<lambda>q. \<not> tmp_sms_match t q"]
        read_file_filter [where P = "\<lambda>q. \<not> tmp_sms_match t q"] g distinct_glob_tmp_sms [OF magic])
qed

theorem scope_exit_removes_removable_temporaries_witness:
  "fst (with_art_illumina
          (art_illumina_call ''out'' ''example'' 250 ''MSv3'' False (Some ''tmp'') (Some 1000))
          failing_body example_world) = Some (OtherError ''boom'') \<and>
   \<not> exists_file
       (files (snd (with_art_illumina
          (art_illumina_call ''out'' ''example'' 250 ''MSv3'' False (Some ''tmp'') (Some 1000))
          failing_body example_world))) ''tmp/tmp.sms.partial'' \<and>
   removed (snd (with_art_illumina
          (art_illumina_call ''out'' ''example'' 250 ''MSv3'' False (Some ''tmp'') (Some 1000))
          failing_body example_world)) = [''tmp/tmp.sms.partial'', ''tmp/tmp.sms.old.1.fq'']"
proof -
  let ?call = "art_illumina_call ''out'' ''example'' 250 ''MSv3'' False (Some ''tmp'') (Some 1000)"
  let ?s = "with_art_illumina ?call failing_body example_world"
  let ?wb = "example_world\<lparr>files := write_file ''tmp/tmp.sms.partial'' ''xx'' (files example_world)\<rparr>"
  have art: "?call = Inr example_self"
    by (simp add: art_illumina_call_def example_self_def)
  have body: "failing_body example_self example_world = (Some (OtherError ''boom''), ?wb)"
    by (simp add: failing_body_def example_self_def join_def)
  have scope: "?s = (fst ?s, snd ?s)" by simp
  have magic: "\<not> has_magic ''tmp''" by (simp add: has_magic_def)
  have listable: "''tmp'' \<notin> set (unlistable ?wb)" by (simp add: example_world_def)
  have nodirs: "\<forall>p \<in> set (dirs ?wb). \<not> tmp_sms_match ''tmp'' p" by (simp add: example_world_def)
  have allowed: "\<forall>p \<in> set (protected ?wb). \<not> tmp_sms_match ''tmp'' p" by (simp add: example_world_def)
  have m: "tmp_sms_match ''tmp'' ''tmp/tmp.sms.partial''"
    by (simp add: tmp_sms_match_def join_def)
  have g: "glob_tmp_sms ''tmp'' ?wb = [''tmp/tmp.sms.partial'', ''tmp/tmp.sms.old.1.fq'']"
    by (simp add: glob_tmp_sms_def has_magic_def tmp_sms_match_def join_def write_file_def example_world_def)
  from scope_exit_removes_removable_temporaries [OF body art scope magic listable nodirs allowed] m g
  show ?thesis by (simp add: example_world_def)
qed

subsection \<open>Lines and records of a FASTQ text\<close>

text \<open>
  What \<^verbatim>\<open>paste -s -d '\t\t\t\n'\<close> makes of a text that is not empty: its lines in
  groups of four, the lines of a group joined by tabs (\<open>fastq_records_groups\<close>). The
  number of records depends on the number of lines only
  (\<open>equal_lines_equal_records\<close>), and \<^verbatim>\<open>tr\<close> turns a record back into the lines of
  its group (\<open>tr_record\<close>).
\<close>

lemma split_on_no_sep: "sep \<notin> set x \<Longrightarrow> split_on sep x = [x]"
  by (induction x) auto

lemma split_on_append: "sep \<notin> set x \<Longrightarrow> split_on sep (x @ sep # y) = x # split_on sep y"
  by (induction x) auto

lemma split_on_not_Nil: "split_on sep s \<noteq> []"
  by (induction s) (auto split: list.splits)

lemma file_lines_line:
  assumes "NL \<notin> set x"
  shows "file_lines (x @ NL # y) = x # file_lines y"
proof (cases "y = []")
  case True
  then show ?thesis using assms by (simp add: file_lines_def split_on_no_sep)
next
  case False
  then have "butlast (x @ NL # y) = x @ NL # butlast y" by (simp add: butlast_append)
  with False assms show ?thesis by (simp add: file_lines_def split_on_append)
qed

lemma file_lines_unlines: "\<forall>l \<in> set ls. NL \<notin> set l \<Longrightarrow> file_lines (unlines ls) = ls"
proof (induction ls)
  case Nil
  then show ?case by (simp add: unlines_def file_lines_def)
next
  case (Cons l ls)
  then have "file_lines (l @ NL # unlines ls) = l # file_lines (unlines ls)"
    by (intro file_lines_line) simp
  with Cons show ?case by (simp add: unlines_def)
qed

lemma split_on_sound: "\<forall>l \<in> set (split_on sep s). sep \<notin> set l"
  by (induction s) (auto split: list.splits)

lemma file_lines_sound: "\<forall>l \<in> set (file_lines s). NL \<notin> set l"
  using split_on_sound by (auto simp: file_lines_def)

lemma join_split_on: "join_with [sep] (split_on sep s) = s"
proof (induction s)
  case Nil
  then show ?case by simp
next
  case (Cons c s)
  then show ?case
    by (cases "split_on sep s"; cases "tl (split_on sep s)") (auto simp: split_on_not_Nil)
qed

lemma paste_go_line:
  "NL \<notin> set l \<Longrightarrow> s \<noteq> [] \<Longrightarrow> paste_go k (l @ NL # s) = l @ paste_delim k # paste_go (Suc k) s"
proof (induction l)
  case Nil
  then show ?case by (cases s) auto
next
  case (Cons c l)
  then show ?case by (cases "l @ NL # s") auto
qed

lemma paste_go_last_line: "NL \<notin> set l \<Longrightarrow> paste_go k (l @ [NL]) = l @ [NL]"
proof (induction l)
  case Nil
  then show ?case by simp
next
  case (Cons c l)
  then show ?case by (cases "l @ [NL]") auto
qed

lemma paste_go_unterminated: "NL \<notin> set l \<Longrightarrow> paste_go k l = l"
proof (induction l)
  case Nil
  then show ?case by simp
next
  case (Cons c l)
  then show ?case by (cases l) auto
qed

lemma unlines_not_Nil: "ls \<noteq> [] \<Longrightarrow> unlines ls \<noteq> []"
  by (cases ls) (auto simp: unlines_def)

lemma paste_go_unlines_Cons:
  assumes "NL \<notin> set l" "ls \<noteq> []"
  shows "paste_go k (unlines (l # ls)) = l @ paste_delim k # paste_go (Suc k) (unlines ls)"
proof -
  have "unlines (l # ls) = l @ NL # unlines ls" by (simp add: unlines_def)
  then show ?thesis using paste_go_line [OF assms(1) unlines_not_Nil [OF assms(2)]] by simp
qed

lemma last_unlines: "ls \<noteq> [] \<Longrightarrow> last (unlines ls) = NL"
  by (induction ls) (auto simp: unlines_def)

lemma records_of_lines:
  assumes "\<forall>l \<in> set ls. NL \<notin> set l" and "4 dvd k"
  shows "file_lines (paste_go k (unlines ls)) = map (join_with [TAB]) (group4 ls)"
  using assms
proof (induction ls arbitrary: k rule: group4.induct)
  case (1 a b c d rest)
  have no: "NL \<notin> set a" "NL \<notin> set b" "NL \<notin> set c" "NL \<notin> set d" "\<forall>l \<in> set rest. NL \<notin> set l"
    using "1.prems" by simp_all
  have k: "paste_delim k = TAB" "paste_delim (Suc k) = TAB" "paste_delim (Suc (Suc k)) = TAB"
    "paste_delim (Suc (Suc (Suc k))) = NL" "4 dvd Suc (Suc (Suc (Suc k)))"
    using "1.prems"(2) by (auto simp: paste_delim_def) presburger+
  have noTAB: "NL \<notin> set (a @ TAB # b @ TAB # c @ TAB # d)"
    using no by (simp add: TAB_def NL_def)
  show ?case
  proof (cases "rest = []")
    case True
    have "paste_go k (unlines [a, b, c, d]) = (a @ TAB # b @ TAB # c @ TAB # d) @ [NL]"
      using no k by (simp add: paste_go_unlines_Cons) (simp add: unlines_def paste_go_last_line)
    then show ?thesis
      using True file_lines_line [OF noTAB, of "[]"] by (simp add: file_lines_def)
  next
    case False
    have "paste_go k (unlines (a # b # c # d # rest)) =
            (a @ TAB # b @ TAB # c @ TAB # d) @ NL # paste_go (Suc (Suc (Suc (Suc k)))) (unlines rest)"
      using no k False by (simp add: paste_go_unlines_Cons)
    then show ?thesis
      using file_lines_line [OF noTAB] "1.IH" [OF no(5) k(5)] by simp
  qed
next
  case 2
  then show ?case by (simp add: unlines_def file_lines_def)
next
  case (3 a)
  then show ?case by (simp add: unlines_def paste_go_last_line file_lines_def split_on_no_sep)
next
  case (4 a b)
  then have k: "paste_delim k = TAB" by (auto simp: paste_delim_def)
  have no: "NL \<notin> set a" "NL \<notin> set b" using "4.prems" by simp_all
  then have n: "NL \<notin> set (a @ TAB # b)" by (simp add: TAB_def NL_def)
  have "paste_go k (unlines [a, b]) = (a @ TAB # b) @ [NL]"
    using no k by (simp add: paste_go_unlines_Cons) (simp add: unlines_def paste_go_last_line)
  then show ?case using file_lines_line [OF n, of "[]"] by (simp add: file_lines_def)
next
  case (5 a b c)
  then have k: "paste_delim k = TAB" "paste_delim (Suc k) = TAB"
    by (auto simp: paste_delim_def)
  have no: "NL \<notin> set a" "NL \<notin> set b" "NL \<notin> set c" using "5.prems" by simp_all
  then have n: "NL \<notin> set (a @ TAB # b @ TAB # c)" by (simp add: TAB_def NL_def)
  have "paste_go k (unlines [a, b, c]) = (a @ TAB # b @ TAB # c) @ [NL]"
    using no k by (simp add: paste_go_unlines_Cons) (simp add: unlines_def paste_go_last_line)
  then show ?case using file_lines_line [OF n, of "[]"] by (simp add: file_lines_def)
qed


lemma unlines_split_on: "unlines (split_on NL s) = s @ [NL]"
proof (induction s)
  case Nil
  then show ?case by (simp add: unlines_def)
next
  case (Cons c s)
  then show ?case
    by (cases "split_on NL s") (auto simp: unlines_def split_on_not_Nil)
qed

lemma unlines_file_lines:
  assumes "c \<noteq> []"
  shows "unlines (file_lines c) = (if last c = NL then c else c @ [NL])"
proof (cases "last c = NL")
  case True
  have "butlast c @ [last c] = c" using assms by (rule append_butlast_last_id)
  then have "butlast c @ [NL] = c" by (simp only: True)
  with True assms show ?thesis by (simp add: file_lines_def unlines_split_on)
next
  case False
  with assms show ?thesis by (simp add: file_lines_def unlines_split_on)
qed

lemma paste_go_add_newline:
  "c \<noteq> [] \<Longrightarrow> last c \<noteq> NL \<Longrightarrow> paste_go k (c @ [NL]) = paste_go k c @ [NL]"
  by (induction k c rule: paste_go.induct) auto

lemma paste_s_lines: "c \<noteq> [] \<Longrightarrow> paste_s c = paste_go 0 (unlines (file_lines c))"
  by (simp add: paste_s_def unlines_file_lines paste_go_add_newline)

lemma fastq_records_groups:
  assumes "c \<noteq> []"
  shows "fastq_records c = map (join_with [TAB]) (group4 (file_lines c))"
  unfolding fastq_records_def paste_s_lines [OF assms]
  by (rule records_of_lines) (simp_all add: file_lines_sound)

lemma length_group4: "length (group4 ls) = (length ls + 3) div 4"
  by (induction ls rule: group4.induct) simp_all

lemma file_lines_Nil_iff: "file_lines c = [] \<longleftrightarrow> c = []"
  by (simp add: file_lines_def split_on_not_Nil)

lemma equal_lines_equal_records:
  assumes "length (file_lines c1) = length (file_lines c2)"
  shows "length (fastq_records c1) = length (fastq_records c2)"
proof (cases "c1 = []")
  case True
  then have "file_lines c2 = []" using assms by (simp add: file_lines_def)
  then have "c2 = []" by (simp only: file_lines_Nil_iff)
  with True show ?thesis by simp
next
  case False
  then have "file_lines c1 \<noteq> []" by (simp add: file_lines_Nil_iff)
  then have "file_lines c2 \<noteq> []" using assms by auto
  then have "c2 \<noteq> []" by (auto simp: file_lines_Nil_iff)
  with False assms show ?thesis by (simp add: fastq_records_groups length_group4)
qed

lemma group4_nonempty: "\<forall>g \<in> set (group4 ls). g \<noteq> []"
  by (induction ls rule: group4.induct) simp_all

lemma tr_record: "g \<noteq> [] \<Longrightarrow> tr (join_with [TAB] g) @ [NL] = unlines (map tr g)"
proof (induction g)
  case Nil
  then show ?case by simp
next
  case (Cons w g)
  then show ?case
    by (cases g) (auto simp: unlines_def tr_def tr_char_def)
qed

subsection \<open>The two shuffles\<close>

lemma read_write_file:
  "read_file (write_file p c t) q = (if q = p then Inr c else read_file t q)"
proof -
  have "map_of (filter (\<lambda>e. fst e \<noteq> p) t) q = map_of t q" if "q \<noteq> p"
    using that by (induction t) auto
  then show ?thesis by (auto simp: read_file_def write_file_def)
qed

lemma suffix_join: "suffix b (join a b)"
  by (auto simp: join_def suffix_def)

lemma last_chars_suffix: "suffix s p \<Longrightarrow> last_chars (length s) p = s"
  by (auto simp: suffix_def last_chars_def)

lemma last_chars_join:
  assumes "length s = k" and "b = b' @ s"
  shows "last_chars k (join a b) = s"
proof -
  have "suffix b (join a b)" by (rule suffix_join)
  moreover have "suffix s b" using assms by (simp add: suffix_def)
  ultimately have "suffix s (join a b)" by (rule suffix_order.trans [rotated])
  then show ?thesis using assms(1) last_chars_suffix by blast
qed

lemma tail_out_R1: "last_chars 8 (out_R1 self) = ''R1.fastq''"
  unfolding out_R1_def
  by (rule last_chars_join [where b' = "output_filename_prefix self @ ''_''"]) simp_all

lemma tail_out_R2: "last_chars 8 (out_R2 self) = ''R2.fastq''"
  unfolding out_R2_def
  by (rule last_chars_join [where b' = "output_filename_prefix self @ ''_''"]) simp_all

lemma tail_unshuffled1: "last_chars 8 (unshuffled1 self) = ''d1.fastq''"
  unfolding unshuffled1_def
  by (rule last_chars_join [where b' = "''tmp.sms.all_files_unshuffle''"]) simp_all

lemma tail_unshuffled2: "last_chars 8 (unshuffled2 self) = ''d2.fastq''"
  unfolding unshuffled2_def
  by (rule last_chars_join [where b' = "''tmp.sms.all_files_unshuffle''"]) simp_all

lemma tail_random_data: "last_chars 8 (random_data self) = ''dom_data''"
  unfolding random_data_def
  by (rule last_chars_join [where b' = "''tmp.sms.ran''"]) simp_all

lemmas path_tails = tail_out_R1 tail_out_R2 tail_unshuffled1 tail_unshuffled2 tail_random_data

lemma paths_differ:
  "out_R1 self \<noteq> out_R2 self" "out_R1 self \<noteq> unshuffled1 self" "out_R1 self \<noteq> unshuffled2 self"
  "out_R1 self \<noteq> random_data self" "out_R2 self \<noteq> unshuffled1 self" "out_R2 self \<noteq> unshuffled2 self"
  "out_R2 self \<noteq> random_data self" "random_data self \<noteq> unshuffled1 self"
  "random_data self \<noteq> unshuffled2 self" "unshuffled1 self \<noteq> unshuffled2 self"
proof -
  have neq: "p \<noteq> q" if "last_chars 8 p \<noteq> last_chars 8 q" for p q :: string
    using that by auto
  show "out_R1 self \<noteq> out_R2 self" by (rule neq) (simp add: path_tails)
  show "out_R1 self \<noteq> unshuffled1 self" by (rule neq) (simp add: path_tails)
  show "out_R1 self \<noteq> unshuffled2 self" by (rule neq) (simp add: path_tails)
  show "out_R1 self \<noteq> random_data self" by (rule neq) (simp add: path_tails)
  show "out_R2 self \<noteq> unshuffled1 self" by (rule neq) (simp add: path_tails)
  show "out_R2 self \<noteq> unshuffled2 self" by (rule neq) (simp add: path_tails)
  show "out_R2 self \<noteq> random_data self" by (rule neq) (simp add: path_tails)
  show "random_data self \<noteq> unshuffled1 self" by (rule neq) (simp add: path_tails)
  show "random_data self \<noteq> unshuffled2 self" by (rule neq) (simp add: path_tails)
  show "unshuffled1 self \<noteq> unshuffled2 self" by (rule neq) (simp add: path_tails)
qed

lemma run_shuffle_files:
  "read_file (files (run_shuffle shuf self w)) p =
     (if p = out_R2 self then
        Inr (shuffled_content shuf (read_file (files w) (unshuffled2 self)) (read_file (files w) (random_data self)))
      else if p = out_R1 self then
        Inr (shuffled_content shuf (read_file (files w) (unshuffled1 self)) (read_file (files w) (random_data self)))
      else read_file (files w) p)"
  using paths_differ [of self]
  by (auto simp: run_shuffle_def shuffle_fastq_file_def read_write_file shuffled_content_def)

lemma tr_unlines: "tr (unlines ls) = concat (map (\<lambda>l. tr l @ [NL]) ls)"
  by (induction ls) (auto simp: tr_def unlines_def tr_char_def TAB_def NL_def)

lemma shuf_lines_nth:
  assumes "i < length (shuf_order shuf key (length ls))"
  shows "shuf_order shuf key (length ls) ! i < length ls \<and>
         shuf_lines shuf key ls ! i = ls ! (shuf_order shuf key (length ls) ! i)"
proof -
  have "shuf_order shuf key (length ls) ! i \<in> set (shuf_order shuf key (length ls))"
    using assms by simp
  then show ?thesis using assms by (auto simp: shuf_lines_def shuf_order_def)
qed

lemma unlines_concat: "unlines (concat xss) = concat (map unlines xss)"
  by (induction xss) (simp_all add: unlines_def)

lemma shuffled_groups:
  assumes c: "c \<noteq> []" and ord: "\<forall>j \<in> set order. j < length (fastq_records c)"
  shows "concat (map (\<lambda>l. tr l @ [NL]) (map (\<lambda>j. fastq_records c ! j) order)) =
         unlines (map tr (concat (map (\<lambda>j. group4 (file_lines c) ! j) order)))"
proof -
  let ?gs = "group4 (file_lines c)"
  have recs: "fastq_records c = map (join_with [TAB]) ?gs" by (rule fastq_records_groups [OF c])
  have one: "tr (fastq_records c ! j) @ [NL] = unlines (map tr (?gs ! j))" if "j \<in> set order" for j
  proof -
    have j: "j < length ?gs" using ord that recs by (metis length_map)
    then have "?gs ! j \<noteq> []" using group4_nonempty [of "file_lines c"] by (metis nth_mem)
    then show ?thesis using j by (simp add: recs tr_record)
  qed
  have "concat (map (\<lambda>l. tr l @ [NL]) (map (\<lambda>j. fastq_records c ! j) order)) =
        concat (map (\<lambda>j. unlines (map tr (?gs ! j))) order)"
    using one by (simp add: o_def cong: map_cong)
  also have "\<dots> = unlines (map tr (concat (map (\<lambda>j. ?gs ! j) order)))"
    by (simp add: unlines_concat map_concat o_def)
  finally show ?thesis .
qed

text \<open>
  Claim C2. Both shuffles read the same random-source file: the first one writes
  neither that file nor the second one's input, and \<^verbatim>\<open>shuf\<close> takes its order from
  the random bytes and the number of input lines only. So for any two concatenated
  mate files with the same number of records (as they have when they have the same
  number of lines, see \<open>equal_lines_equal_records\<close>) the two outputs have the same
  number of records, and for every output position \<open>i\<close> the records at position
  \<open>i\<close> of the two outputs come from one and the same position \<open>j\<close> of the two
  inputs. For inputs that are not empty the records are the groups of four lines:
  each output is, for one list of positions common to both, the four-line groups of
  its input at these positions, translated by \<^verbatim>\<open>tr\<close>.
\<close>

theorem shuffle_keeps_mates_paired:
  assumes c1: "read_file (files w) (unshuffled1 self) = Inr c1"
    and c2: "read_file (files w) (unshuffled2 self) = Inr c2"
    and key: "read_file (files w) (random_data self) = Inr key"
    and len: "length (fastq_records c1) = length (fastq_records c2)"
  shows "read_file (files (run_shuffle shuf self w)) (out_R1 self) =
           Inr (concat (map (\<lambda>l. tr l @ [NL]) (shuf_lines shuf key (fastq_records c1)))) \<and>
         read_file (files (run_shuffle shuf self w)) (out_R2 self) =
           Inr (concat (map (\<lambda>l. tr l @ [NL]) (shuf_lines shuf key (fastq_records c2)))) \<and>
         length (shuf_lines shuf key (fastq_records c1)) = length (shuf_lines shuf key (fastq_records c2)) \<and>
         (\<forall>i < length (shuf_lines shuf key (fastq_records c1)).
            \<exists>j < length (fastq_records c1).
               shuf_lines shuf key (fastq_records c1) ! i = fastq_records c1 ! j \<and>
               shuf_lines shuf key (fastq_records c2) ! i = fastq_records c2 ! j) \<and>
         (c1 \<noteq> [] \<and> c2 \<noteq> [] \<longrightarrow>
            (\<exists>order. (\<forall>j \<in> set order. j < length (group4 (file_lines c1)) \<and>
                                      j < length (group4 (file_lines c2))) \<and>
               read_file (files (run_shuffle shuf self w)) (out_R1 self) =
                 Inr (unlines (map tr (concat (map (\<lambda>j. group4 (file_lines c1) ! j) order)))) \<and>
               read_file (files (run_shuffle shuf self w)) (out_R2 self) =
                 Inr (unlines (map tr (concat (map (\<lambda>j. group4 (file_lines c2) ! j) order))))))"
proof -
  let ?n = "length (fastq_records c1)"
  let ?order = "shuf_order shuf key ?n"
  have r1: "read_file (files (run_shuffle shuf self w)) (out_R1 self) =
           Inr (concat (map (\<lambda>l. tr l @ [NL]) (shuf_lines shuf key (fastq_records c1))))"
    using paths_differ [of self]
    by (simp add: run_shuffle_files c1 key shuffled_content_def shuffle_pipeline_def tr_unlines)
  have r2: "read_file (files (run_shuffle shuf self w)) (out_R2 self) =
           Inr (concat (map (\<lambda>l. tr l @ [NL]) (shuf_lines shuf key (fastq_records c2))))"
    by (simp add: run_shuffle_files c2 key shuffled_content_def shuffle_pipeline_def tr_unlines)
  have l: "length (shuf_lines shuf key (fastq_records c1)) = length (shuf_lines shuf key (fastq_records c2))"
    by (simp add: shuf_lines_def len)
  have pair: "\<exists>j < ?n. shuf_lines shuf key (fastq_records c1) ! i = fastq_records c1 ! j \<and>
               shuf_lines shuf key (fastq_records c2) ! i = fastq_records c2 ! j"
    if "i < length (shuf_lines shuf key (fastq_records c1))" for i
  proof -
    from that have i: "i < length ?order" by (simp add: shuf_lines_def)
    from shuf_lines_nth [OF i] have "?order ! i < ?n"
      and "shuf_lines shuf key (fastq_records c1) ! i = fastq_records c1 ! (?order ! i)" by simp_all
    moreover from shuf_lines_nth [of i shuf key "fastq_records c2"] i len
    have "shuf_lines shuf key (fastq_records c2) ! i = fastq_records c2 ! (?order ! i)" by simp
    ultimately show ?thesis by blast
  qed
  have groups: "\<exists>order. (\<forall>j \<in> set order. j < length (group4 (file_lines c1)) \<and>
                                      j < length (group4 (file_lines c2))) \<and>
               read_file (files (run_shuffle shuf self w)) (out_R1 self) =
                 Inr (unlines (map tr (concat (map (\<lambda>j. group4 (file_lines c1) ! j) order)))) \<and>
               read_file (files (run_shuffle shuf self w)) (out_R2 self) =
                 Inr (unlines (map tr (concat (map (\<lambda>j. group4 (file_lines c2) ! j) order))))"
    if ne: "c1 \<noteq> []" "c2 \<noteq> []"
  proof -
    have o1: "\<forall>j \<in> set ?order. j < length (fastq_records c1)" by (simp add: shuf_order_def)
    then have o2: "\<forall>j \<in> set ?order. j < length (fastq_records c2)" by (simp add: len)
    have s1: "shuf_lines shuf key (fastq_records c1) = map (\<lambda>j. fastq_records c1 ! j) ?order"
      by (simp add: shuf_lines_def)
    have s2: "shuf_lines shuf key (fastq_records c2) = map (\<lambda>j. fastq_records c2 ! j) ?order"
      by (simp add: shuf_lines_def len)
    have g1: "length (fastq_records c1) = length (group4 (file_lines c1))"
      by (simp add: fastq_records_groups [OF ne(1)])
    have g2: "length (fastq_records c2) = length (group4 (file_lines c2))"
      by (simp add: fastq_records_groups [OF ne(2)])
    have "\<forall>j \<in> set ?order. j < length (group4 (file_lines c1)) \<and> j < length (group4 (file_lines c2))"
      using o1 o2 g1 g2 by simp
    moreover have "read_file (files (run_shuffle shuf self w)) (out_R1 self) =
                 Inr (unlines (map tr (concat (map (\<lambda>j. group4 (file_lines c1) ! j) ?order))))"
      unfolding r1 s1 using shuffled_groups [OF ne(1) o1] by simp
    moreover have "read_file (files (run_shuffle shuf self w)) (out_R2 self) =
                 Inr (unlines (map tr (concat (map (\<lambda>j. group4 (file_lines c2) ! j) ?order))))"
      unfolding r2 s2 using shuffled_groups [OF ne(2) o2] by simp
    ultimately show ?thesis by blast
  qed
  from r1 r2 l pair groups show ?thesis by blast
qed

theorem shuffle_keeps_mates_paired_witness:
  "length (fastq_records mate1_text) = length (fastq_records mate2_text) \<and>
   read_file (files (run_shuffle example_shuf example_self paired_world)) (out_R1 example_self) =
     Inr (unlines [''@b/1'', ''GG'', ''+'', ''JJ'', ''@a/1'', ''AC'', ''+'', ''II'']) \<and>
   read_file (files (run_shuffle example_shuf example_self paired_world)) (out_R2 example_self) =
     Inr (unlines [''@b/2'', ''CC'', ''+'', ''JJ'', ''@a/2'', ''GT'', ''+'', ''II''])"
proof -
  have r1: "fastq_records mate1_text =
      [''@a/1'' @ [TAB] @ ''AC'' @ [TAB] @ ''+'' @ [TAB] @ ''II'',
       ''@b/1'' @ [TAB] @ ''GG'' @ [TAB] @ ''+'' @ [TAB] @ ''JJ'']"
    by (simp add: fastq_records_def mate1_text_def unlines_def paste_s_def paste_delim_def
        file_lines_def NL_def TAB_def)
  have r2: "fastq_records mate2_text =
      [''@a/2'' @ [TAB] @ ''GT'' @ [TAB] @ ''+'' @ [TAB] @ ''II'',
       ''@b/2'' @ [TAB] @ ''CC'' @ [TAB] @ ''+'' @ [TAB] @ ''JJ'']"
    by (simp add: fastq_records_def mate2_text_def unlines_def paste_s_def paste_delim_def
        file_lines_def NL_def TAB_def)
  have c1: "read_file (files paired_world) (unshuffled1 example_self) = Inr mate1_text"
    by (simp add: read_file_def paired_world_def unshuffled1_def example_self_def join_def)
  have c2: "read_file (files paired_world) (unshuffled2 example_self) = Inr mate2_text"
    by (simp add: read_file_def paired_world_def unshuffled2_def example_self_def join_def)
  have key: "read_file (files paired_world) (random_data example_self) = Inr ''qwerty''"
    by (simp add: read_file_def paired_world_def random_data_def example_self_def join_def)
  have len: "length (fastq_records mate1_text) = length (fastq_records mate2_text)"
    by (simp add: r1 r2)
  have ord: "shuf_order example_shuf ''qwerty'' (Suc (Suc 0)) = [Suc 0, 0]"
    by (simp add: shuf_order_def example_shuf_def)
  note paired = shuffle_keeps_mates_paired [OF c1 c2 key len, of example_shuf]
  have o1: "read_file (files (run_shuffle example_shuf example_self paired_world)) (out_R1 example_self) =
      Inr (concat (map (\<lambda>l. tr l @ [NL]) (shuf_lines example_shuf ''qwerty'' (fastq_records mate1_text))))"
    using paired by (rule conjunct1)
  have o2: "read_file (files (run_shuffle example_shuf example_self paired_world)) (out_R2 example_self) =
      Inr (concat (map (\<lambda>l. tr l @ [NL]) (shuf_lines example_shuf ''qwerty'' (fastq_records mate2_text))))"
    using paired by (rule conjunct1 [OF conjunct2])
  show ?thesis
    unfolding o1 o2 using len
    by (simp add: r1 r2 shuf_lines_def ord unlines_def tr_def tr_char_def TAB_def NL_def)
qed

subsection \<open>The shared shuffle key\<close>

lemma run_random_data_files:
  "read_file (files (run_random_data self w)) p =
     (if p = random_data self then Inr (shuffle_key self w) else read_file (files w) p)"
  by (simp add: run_random_data_def random_choice_def read_write_file shuffle_key_def)

lemma length_shuffle_key: "int (length (shuffle_key self w)) = key_size (nreads self)"
  by (simp add: shuffle_key_def random_choice_def key_size_def)

lemma key_size_eq: "key_size n = max 5000000 \<lfloor>2.5 * real_of_int n\<rfloor>"
  unfolding key_size_def py_int_def by (auto simp: max_def)

text \<open>
  Claim C9, as the code has it: the size is \<^verbatim>\<open>max(5000000, int(2.5*nreads))\<close>, and
  \<^verbatim>\<open>int\<close> drops the fraction. For a budget of 2000001 reads the key that the run
  writes has 5000002 characters, fewer than 2.5 times the budget, which is 5000002.5.
\<close>

theorem key_shorter_than_claimed:
  "read_file (files (run_random_data odd_budget_self example_world)) (random_data odd_budget_self)
     = Inr (shuffle_key odd_budget_self example_world) \<and>
   int (length (shuffle_key odd_budget_self example_world)) = 5000002 \<and>
   real (length (shuffle_key odd_budget_self example_world))
     < max 5000000 (2.5 * real_of_int (nreads odd_budget_self))"
proof -
  have n: "nreads odd_budget_self = 2000001" by (simp add: odd_budget_self_def)
  have k: "key_size 2000001 = 5000002" by (simp add: key_size_def py_int_def)
  have l: "int (length (shuffle_key odd_budget_self example_world)) = 5000002"
    using length_shuffle_key [of odd_budget_self example_world] by (simp add: n k)
  then have "real (length (shuffle_key odd_budget_self example_world)) = 5000002"
    by linarith
  then show ?thesis using l by (simp add: run_random_data_files n)
qed

text \<open>
  Claim C9, amended. One random character sequence is generated per run, by one
  block of draws, written to one file, and both mate shuffles take it from there. Its
  length is max(5000000, floor(2.5 * total read budget)) for every value of the
  budget: at least 5000000, more than 2.5 * budget - 1, and at least
  max(5000000, 2.5 * budget) when the budget is even.
\<close>

theorem shuffle_key_is_shared_and_sized:
  "read_file (files (run_random_data self w)) (random_data self) = Inr (shuffle_key self w) \<and>
   rng_pos (run_random_data self w) = rng_pos w + length (shuffle_key self w) \<and>
   read_file (files (run_shuffle shuf self (run_random_data self w))) (out_R1 self) =
     Inr (shuffled_content shuf (read_file (files w) (unshuffled1 self)) (Inr (shuffle_key self w))) \<and>
   read_file (files (run_shuffle shuf self (run_random_data self w))) (out_R2 self) =
     Inr (shuffled_content shuf (read_file (files w) (unshuffled2 self)) (Inr (shuffle_key self w))) \<and>
   int (length (shuffle_key self w)) = max 5000000 \<lfloor>2.5 * real_of_int (nreads self)\<rfloor> \<and>
   5000000 \<le> length (shuffle_key self w) \<and>
   2.5 * real_of_int (nreads self) - 1 < real (length (shuffle_key self w)) \<and>
   (even (nreads self) \<longrightarrow>
      max 5000000 (2.5 * real_of_int (nreads self)) \<le> real (length (shuffle_key self w)))"
proof -
  let ?key = "shuffle_key self w"
  have len: "int (length ?key) = key_size (nreads self)" by (rule length_shuffle_key)
  have pos: "rng_pos (run_random_data self w) = rng_pos w + length ?key"
    by (simp add: run_random_data_def random_choice_def shuffle_key_def)
  have b: "5000000 \<le> key_size (nreads self)"
    "2.5 * real_of_int (nreads self) - 1 < real_of_int (key_size (nreads self))"
    "even (nreads self) \<longrightarrow> 2.5 * real_of_int (nreads self) \<le> real_of_int (key_size (nreads self))"
    unfolding key_size_def py_int_def by (auto simp: max_def elim!: evenE)
  have r: "real (length ?key) = real_of_int (key_size (nreads self))"
    using len by (metis of_int_of_nat_eq)
  have "5000000 \<le> length ?key" using b(1) len by linarith
  moreover have "even (nreads self) \<longrightarrow> max 5000000 (2.5 * real_of_int (nreads self)) \<le> real (length ?key)"
    using b(1,3) r by (auto simp: max_def)
  moreover have "2.5 * real_of_int (nreads self) - 1 < real (length ?key)" using b(2) r by simp
  moreover have "int (length ?key) = max 5000000 \<lfloor>2.5 * real_of_int (nreads self)\<rfloor>"
    using len by (simp add: key_size_eq)
  ultimately show ?thesis
    using paths_differ [of self] pos
    by (simp add: run_shuffle_files run_random_data_files)
qed

theorem shuffle_key_is_shared_and_sized_witness:
  "even (nreads example_self) \<and>
   read_file (files (run_random_data example_self example_world)) (random_data example_self)
     = Inr (shuffle_key example_self example_world) \<and>
   length (shuffle_key example_self example_world) = 5000000 \<and>
   max 5000000 (2.5 * real_of_int (nreads example_self)) \<le> real (length (shuffle_key example_self example_world))"
proof -
  have n: "nreads example_self = 1000" by (simp add: example_self_def)
  have e: "even (nreads example_self)" by (simp add: n)
  from shuffle_key_is_shared_and_sized [of example_self example_world example_shuf] e
  show ?thesis by (simp add: n)
qed

subsection \<open>A run that ends normally has gone through every step\<close>

lemma copy_all_files:
  "copy_all out rs w = (None, w') \<Longrightarrow> read_file (files w) out = Inr x \<Longrightarrow>
     (\<exists>c. read_file (files w') out = Inr c) \<and>
     (\<forall>q. q \<noteq> out \<longrightarrow> read_file (files w') q = read_file (files w) q) \<and>
     rng_pos w' = rng_pos w \<and> rng_stream w' = rng_stream w \<and> art_calls w' = art_calls w"
proof (induction rs arbitrary: w x)
  case Nil
  then show ?case by simp
next
  case (Cons r rs)
  from Cons.prems obtain c where r: "read_text w r = Inr c"
    and rest: "copy_all out rs (w\<lparr>files := write_file out (x @ c) (files w)\<rparr>) = (None, w')"
    by (auto split: sum.splits)
  have "read_file (files (w\<lparr>files := write_file out (x @ c) (files w)\<rparr>)) out = Inr (x @ c)"
    by (simp add: read_write_file)
  from Cons.IH [OF rest this] show ?case by (auto simp: read_write_file)
qed

lemma run_merge_files:
  assumes "run_merge self w = (None, w')"
  shows "(\<exists>c1. read_file (files w') (unshuffled1 self) = Inr c1) \<and>
         (\<exists>c2. read_file (files w') (unshuffled2 self) = Inr c2) \<and>
         rng_pos w' = rng_pos w \<and> rng_stream w' = rng_stream w \<and> art_calls w' = art_calls w"
proof -
  let ?r1 = "sort (filter (\<lambda>x. last_chars 4 x = ''1.fq'') (glob_tmp_sms (temp self) w))"
  let ?r2 = "sort (filter (\<lambda>x. last_chars 4 x = ''2.fq'') (glob_tmp_sms (temp self) w))"
  from assms obtain w1 where
    a: "copy_all (unshuffled1 self) ?r1 (w\<lparr>files := write_file (unshuffled1 self) [] (files w)\<rparr>) = (None, w1)"
    and b: "copy_all (unshuffled2 self) ?r2 (w1\<lparr>files := write_file (unshuffled2 self) [] (files w1)\<rparr>) = (None, w')"
    unfolding run_merge_def Let_def by (auto split: prod.splits option.splits)
  from copy_all_files [OF a] obtain c1 where c1: "read_file (files w1) (unshuffled1 self) = Inr c1"
    and k1: "rng_pos w1 = rng_pos w" "rng_stream w1 = rng_stream w" "art_calls w1 = art_calls w"
    by (auto simp: read_write_file)
  from copy_all_files [OF b] have
    c2: "\<exists>c2. read_file (files w') (unshuffled2 self) = Inr c2"
    and same: "\<forall>q. q \<noteq> unshuffled2 self \<longrightarrow>
                 read_file (files w') q = read_file (write_file (unshuffled2 self) [] (files w1)) q"
    and k2: "rng_pos w' = rng_pos w1" "rng_stream w' = rng_stream w1" "art_calls w' = art_calls w1"
    by (auto simp: read_write_file)
  from same c1 paths_differ(10) [of self] have "read_file (files w') (unshuffled1 self) = Inr c1"
    by (simp add: read_write_file)
  with c2 k1 k2 show ?thesis by simp
qed

lemma run_success:
  assumes "run gen shuf self templates counts w = (None, w')"
  shows "\<exists>w1 w2 c1 c2.
           run_reads gen self (zip templates counts) w = (None, w1) \<and>
           run_merge self w1 = (None, w2) \<and>
           read_file (files w2) (unshuffled1 self) = Inr c1 \<and>
           read_file (files w2) (unshuffled2 self) = Inr c2 \<and>
           read_file (files (run_random_data self w2)) (unshuffled1 self) = Inr c1 \<and>
           read_file (files (run_random_data self w2)) (unshuffled2 self) = Inr c2 \<and>
           read_file (files (run_random_data self w2)) (random_data self) = Inr (shuffle_key self w2) \<and>
           w' = run_shuffle shuf self (run_random_data self w2)"
proof -
  from assms obtain w1 w2 where
    a: "run_reads gen self (zip templates counts) w = (None, w1)"
    and b: "run_merge self w1 = (None, w2)"
    and c: "w' = run_shuffle shuf self (run_random_data self w2)"
    unfolding run_def by (auto split: prod.splits option.splits)
  from run_merge_files [OF b] obtain c1 c2 where
    "read_file (files w2) (unshuffled1 self) = Inr c1" "read_file (files w2) (unshuffled2 self) = Inr c2"
    by blast
  with a b c paths_differ [of self] show ?thesis
    by (auto simp: run_random_data_files)
qed

subsection \<open>The allocation of read counts\<close>

text \<open>
  A column made by \<^verbatim>\<open>apply\<close> is described by an invariant \<open>I\<close> of the sampler's
  state and a relation \<open>Q\<close> between the state, a row and the value the row was
  given: each call establishes \<open>Q\<close> for its row, and later calls keep what earlier
  ones established.
\<close>

lemma df_apply_length: "df_apply f st rs = Inr (vs, st') \<Longrightarrow> length vs = length rs"
  by (induction rs arbitrary: st vs) (auto split: sum.splits prod.splits)

lemma df_apply_invariant:
  assumes step: "\<And>s r v s'. I s \<Longrightarrow> r \<in> R \<Longrightarrow> f s r = Inr (v, s') \<Longrightarrow> I s' \<and> Q s' r v"
    and keep: "\<And>s r v s' r0 v0. I s \<Longrightarrow> Q s r0 v0 \<Longrightarrow> r \<in> R \<Longrightarrow> f s r = Inr (v, s') \<Longrightarrow> Q s' r0 v0"
  shows "df_apply f st rs = Inr (vs, st') \<Longrightarrow> I st \<Longrightarrow> set rs \<subseteq> R \<Longrightarrow>
         I st' \<and> list_all2 (Q st') rs vs \<and> (\<forall>r0 v0. Q st r0 v0 \<longrightarrow> Q st' r0 v0)"
proof (induction rs arbitrary: st vs)
  case Nil
  then show ?case by simp
next
  case (Cons r rs)
  from Cons.prems(1) obtain v s1 vs' where
    f: "f st r = Inr (v, s1)" and rest: "df_apply f s1 rs = Inr (vs', st')" and vs: "vs = v # vs'"
    by (auto split: sum.splits prod.splits)
  have r: "r \<in> R" and sub: "set rs \<subseteq> R" using Cons.prems(3) by auto
  from step [OF Cons.prems(2) r f] have i1: "I s1" and q1: "Q s1 r v" by simp_all
  from Cons.IH [OF rest i1 sub] have
    i': "I st'" and all: "list_all2 (Q st') rs vs'" and mono: "\<forall>r0 v0. Q s1 r0 v0 \<longrightarrow> Q st' r0 v0"
    by simp_all
  have "Q st' r0 v0" if "Q st r0 v0" for r0 v0
    using keep [OF Cons.prems(2) that r f] mono by blast
  with i' all mono q1 vs show ?case by simp
qed

lemma set_assign:
  assumes "list_all2 Q rs vs" and "r' \<in> set (assign upd rs vs)"
  shows "\<exists>r v. r \<in> set rs \<and> r' = upd r v \<and> Q r v"
  using assms by (induction rule: list_all2_induct) (auto simp: assign_def)

lemma map_assign:
  assumes "length vs = length rs" and "\<And>r v. h (upd r v) = h r"
  shows "map h (assign upd rs vs) = map h rs"
  using assms(1) by (induction vs rs rule: list_induct2) (auto simp: assign_def assms(2))

lemma index_of_distinct: "distinct xs \<Longrightarrow> map (\<lambda>x. index_of x xs) xs = [0..<length xs]"
proof (induction xs)
  case Nil
  then show ?case by simp
next
  case (Cons y ys)
  have "map (\<lambda>x. index_of x (y # ys)) ys = map (\<lambda>x. Suc (index_of x ys)) ys"
    by (rule map_cong) (use Cons.prems in auto)
  also have "\<dots> = map Suc (map (\<lambda>x. index_of x ys) ys)" by simp
  also have "\<dots> = map Suc [0..<length ys]" using Cons by simp
  finally show ?case by (simp add: upt_conv_Cons map_Suc_upt del: upt_Suc)
qed

lemma index_of_less: "x \<in> set xs \<Longrightarrow> index_of x xs < length xs"
  by (induction xs) auto

lemma amplicons_of_keys:
  "amplicons_of (map (\<lambda>r. (ref r, amplicon_number r)) t) g =
     map amplicon_number (filter (\<lambda>r. ref r = g) t)"
  by (induction t) (auto simp: amplicons_of_def)

lemma distinct_amplicons_of: "distinct amps \<Longrightarrow> distinct (amplicons_of amps g)"
proof -
  assume d: "distinct amps"
  have "inj_on snd (set (filter (\<lambda>k. fst k = g) amps))"
    by (auto simp: inj_on_def prod_eq_iff)
  with d show ?thesis by (simp add: amplicons_of_def distinct_map)
qed

text \<open>The rows of one genome are given the components 0, 1, ... of a genome-level vector, in order.\<close>

lemma positions_of_genome:
  assumes keys: "map (\<lambda>r. (ref r, amplicon_number r)) t = amps" and d: "distinct amps"
  shows "map (position amps) (filter (\<lambda>r. ref r = g) t) = [0..<length (amplicons_of amps g)]"
proof -
  let ?rows = "filter (\<lambda>r. ref r = g) t"
  have a: "amplicons_of amps g = map amplicon_number ?rows"
    using keys amplicons_of_keys by blast
  have "map (position amps) ?rows = map (\<lambda>r. index_of (amplicon_number r) (amplicons_of amps g)) ?rows"
    by (rule map_cong) (auto simp: position_def)
  also have "\<dots> = map (\<lambda>x. index_of x (amplicons_of amps g)) (map amplicon_number ?rows)"
    by simp
  also have "\<dots> = [0..<length (amplicons_of amps g)]"
    using index_of_distinct [OF distinct_amplicons_of [OF d, of g]] a by simp
  finally show ?thesis .
qed

lemma stage2:
  assumes "df_apply (genome_count_sampler multinomial abundances budget) st rs = Inr (vs, st')"
  shows "list_all2 (genome_count_seen st') rs vs \<and>
         prob_cache st' = prob_cache st \<and> count_cache st' = count_cache st"
proof -
  let ?I = "\<lambda>s. prob_cache s = prob_cache st \<and> count_cache s = count_cache st"
  have "?I st' \<and> list_all2 (genome_count_seen st') rs vs \<and>
        (\<forall>r0 v0. genome_count_seen st r0 v0 \<longrightarrow> genome_count_seen st' r0 v0)"
  proof (rule df_apply_invariant [where I = ?I and R = UNIV, OF _ _ assms])
    fix s r v s'
    assume "?I s" "genome_count_sampler multinomial abundances budget s r = Inr (v, s')"
    then show "?I s' \<and> genome_count_seen s' r v"
      by (auto simp: genome_count_sampler_def genome_count_seen_def split: option.splits prod.splits)
  next
    fix s r v s' r0 v0
    assume "genome_count_seen s r0 v0" "genome_count_sampler multinomial abundances budget s r = Inr (v, s')"
    then show "genome_count_seen s' r0 v0"
      by (auto simp: genome_count_sampler_def genome_count_seen_def split: option.splits prod.splits)
  qed simp_all
  then show ?thesis by simp
qed

lemma stage3:
  assumes run: "df_apply (amplicon_probability_sampler dirichlet hyper amps) st rs = Inr (vs, st')"
    and dir: "\<And>a g. length (fst (dirichlet a g)) = length a"
    and init: "prob_cache st = []"
  shows "list_all2 (prob_seen amps st') rs vs \<and> count_cache st' = count_cache st \<and>
         (\<forall>g vec. map_of (prob_cache st') g = Some vec \<longrightarrow> length vec = length (amplicons_of amps g))"
proof -
  let ?I = "\<lambda>s. count_cache s = count_cache st \<and>
     (\<forall>g vec. map_of (prob_cache s) g = Some vec \<longrightarrow> length vec = length (amplicons_of amps g))"
  have "?I st' \<and> list_all2 (prob_seen amps st') rs vs \<and>
        (\<forall>r0 v0. prob_seen amps st r0 v0 \<longrightarrow> prob_seen amps st' r0 v0)"
  proof (rule df_apply_invariant [where I = ?I and R = UNIV, OF _ _ run])
    fix s r v s'
    assume i: "?I s" and f: "amplicon_probability_sampler dirichlet hyper amps s r = Inr (v, s')"
    show "?I s' \<and> prob_seen amps s' r v"
    proof (cases "map_of (prob_cache s) (ref r)")
      case (Some vec)
      with f i show ?thesis
        by (auto simp: amplicon_probability_sampler_def prob_seen_def component_def split: if_splits)
    next
      case None
      obtain vec g where d: "dirichlet (map (hyper (ref r)) (amplicons_of amps (ref r))) (generator s) = (vec, g)"
        by (cases "dirichlet (map (hyper (ref r)) (amplicons_of amps (ref r))) (generator s)")
      have "length vec = length (amplicons_of amps (ref r))"
        using dir [of "map (hyper (ref r)) (amplicons_of amps (ref r))" "generator s"] d by simp
      with f i None d show ?thesis
        by (auto simp: amplicon_probability_sampler_def prob_seen_def component_def split: if_splits)
    qed
  next
    fix s r v s' r0 v0
    assume "prob_seen amps s r0 v0" "amplicon_probability_sampler dirichlet hyper amps s r = Inr (v, s')"
    then show "prob_seen amps s' r0 v0"
      by (auto simp: amplicon_probability_sampler_def prob_seen_def component_def
          split: option.splits prod.splits if_splits)
  qed (simp_all add: init)
  then show ?thesis by simp
qed

lemma stage4:
  assumes run: "df_apply (amplicon_reads_sampler multinomial amps) st rs = Inr (vs, st')"
    and mult: "\<And>n p g. length (fst (multinomial n p g)) = length p \<and>
                        (p \<noteq> [] \<longrightarrow> sum_list (fst (multinomial n p g)) = n)"
    and init: "count_cache st = []"
    and probs: "\<forall>g vec. map_of (prob_cache st) g = Some vec \<longrightarrow> length vec = length (amplicons_of amps g)"
    and rows: "\<forall>r \<in> set rs. amplicon_number r \<in> set (amplicons_of amps (ref r))"
  shows "list_all2 (count_seen amps st') rs vs \<and> prob_cache st' = prob_cache st \<and>
         (\<forall>g vec. map_of (count_cache st') g = Some vec \<longrightarrow>
            length vec = length (amplicons_of amps g) \<and>
            (\<exists>r \<in> set rs. ref r = g \<and> sum_list vec = genome_n_reads r))"
proof -
  let ?I = "\<lambda>s. prob_cache s = prob_cache st \<and>
      (\<forall>g vec. map_of (count_cache s) g = Some vec \<longrightarrow>
            length vec = length (amplicons_of amps g) \<and>
            (\<exists>r \<in> set rs. ref r = g \<and> sum_list vec = genome_n_reads r))"
  have "?I st' \<and> list_all2 (count_seen amps st') rs vs \<and>
        (\<forall>r0 v0. count_seen amps st r0 v0 \<longrightarrow> count_seen amps st' r0 v0)"
  proof (rule df_apply_invariant [where I = ?I and R = "set rs", OF _ _ run])
    fix s r v s'
    assume i: "?I s" and r: "r \<in> set rs"
      and f: "amplicon_reads_sampler multinomial amps s r = Inr (v, s')"
    show "?I s' \<and> count_seen amps s' r v"
    proof (cases "map_of (count_cache s) (ref r)")
      case (Some vec)
      with f i show ?thesis
        by (auto simp: amplicon_reads_sampler_def count_seen_def component_def split: if_splits)
    next
      case None
      with f obtain pv where pv: "map_of (prob_cache s) (ref r) = Some pv"
        by (auto simp: amplicon_reads_sampler_def split: option.splits)
      obtain vec g where m: "multinomial (genome_n_reads r) pv (generator s) = (vec, g)"
        by (cases "multinomial (genome_n_reads r) pv (generator s)")
      have lpv: "length pv = length (amplicons_of amps (ref r))"
        using probs pv i by simp
      moreover have "amplicons_of amps (ref r) \<noteq> []" using rows r by auto
      ultimately have ne: "pv \<noteq> []" by auto
      from mult [of "genome_n_reads r" pv "generator s"] m ne lpv
      have lv: "length vec = length (amplicons_of amps (ref r))"
        and sv: "sum_list vec = genome_n_reads r" by simp_all
      from f None pv m have s': "s' = s\<lparr>generator := g, count_cache := (ref r, vec) # count_cache s\<rparr>"
        and v: "position amps r < length vec" "v = vec ! position amps r"
        by (auto simp: amplicon_reads_sampler_def component_def split: if_splits)
      show ?thesis using i r lv sv v by (auto simp: s' count_seen_def)
    qed
  next
    fix s r v s' r0 v0
    assume "count_seen amps s r0 v0" "amplicon_reads_sampler multinomial amps s r = Inr (v, s')"
    then show "count_seen amps s' r0 v0"
      by (auto simp: amplicon_reads_sampler_def count_seen_def component_def
          split: option.splits prod.splits if_splits)
  qed (simp_all add: init)
  then show ?thesis by simp
qed

lemma allocate_stages:
  assumes ok: "allocate multinomial dirichlet hyper abundances budget df g0 = Inr (out, st)"
  defines "amps \<equiv> map (\<lambda>r. (ref r, amplicon_number r)) df"
    and "df1 \<equiv> map (\<lambda>r. r\<lparr>hyperparameter := hyper (ref r) (amplicon_number r)\<rparr>)
                            (map (\<lambda>r. r\<lparr>total_n_reads := budget\<rparr>) df)"
    and "st0 \<equiv> \<lparr>generator = g0, genome_draw = None, prob_cache = [], count_cache = []\<rparr>"
  shows "\<exists>col2 st2 col3 st3 col4.
     df_apply (genome_count_sampler multinomial abundances budget) st0 df1 = Inr (col2, st2) \<and>
     df_apply (amplicon_probability_sampler dirichlet hyper amps) st2
        (assign (\<lambda>r v. r\<lparr>genome_n_reads := v\<rparr>) df1 col2) = Inr (col3, st3) \<and>
     df_apply (amplicon_reads_sampler multinomial amps) st3
        (assign (\<lambda>r v. r\<lparr>amplicon_prob := v\<rparr>) (assign (\<lambda>r v. r\<lparr>genome_n_reads := v\<rparr>) df1 col2) col3)
        = Inr (col4, st) \<and>
     out = assign (\<lambda>r v. r\<lparr>n_reads := v\<rparr>)
        (assign (\<lambda>r v. r\<lparr>amplicon_prob := v\<rparr>) (assign (\<lambda>r v. r\<lparr>genome_n_reads := v\<rparr>) df1 col2) col3) col4"
proof (cases "df_apply (genome_count_sampler multinomial abundances budget) st0 df1")
  case (Inl e)
  with ok show ?thesis by (simp add: allocate_def Let_def amps_def df1_def st0_def)
next
  case s2: (Inr x2)
  obtain col2 st2 where x2: "x2 = (col2, st2)" by (cases x2)
  let ?df2 = "assign (\<lambda>r v. r\<lparr>genome_n_reads := v\<rparr>) df1 col2"
  show ?thesis
  proof (cases "df_apply (amplicon_probability_sampler dirichlet hyper amps) st2 ?df2")
    case (Inl e)
    with ok s2 x2 show ?thesis by (simp add: allocate_def Let_def amps_def df1_def st0_def)
  next
    case s3: (Inr x3)
    obtain col3 st3 where x3: "x3 = (col3, st3)" by (cases x3)
    let ?df3 = "assign (\<lambda>r v. r\<lparr>amplicon_prob := v\<rparr>) ?df2 col3"
    show ?thesis
    proof (cases "df_apply (amplicon_reads_sampler multinomial amps) st3 ?df3")
      case (Inl e)
      with ok s2 x2 s3 x3 show ?thesis by (simp add: allocate_def Let_def amps_def df1_def st0_def)
    next
      case s4: (Inr x4)
      obtain col4 st4 where x4: "x4 = (col4, st4)" by (cases x4)
      from ok s2 x2 s3 x3 s4 x4 have "out = assign (\<lambda>r v. r\<lparr>n_reads := v\<rparr>) ?df3 col4" "st4 = st"
        by (simp_all add: allocate_def Let_def amps_def df1_def st0_def)
      with s2 x2 s3 x3 s4 x4 show ?thesis by blast
    qed
  qed
qed

text \<open>
  Claim C3. In the allocation table, every amplicon row of a genome observes the same
  \<^verbatim>\<open>genome_n_reads\<close> value and the same Dirichlet probability vector (the one vector
  cached for its genome, of which the row holds its own component), and within each
  genome the per-amplicon \<^verbatim>\<open>n_reads\<close> values sum to that genome's
  \<^verbatim>\<open>genome_n_reads\<close> exactly. The table is taken to name every amplicon once, and
  the two draws to return a vector as long as the one they are given, the
  multinomial's summing to its number of trials.
\<close>

theorem allocation_is_consistent_per_genome:
  assumes ok: "allocate multinomial dirichlet hyper abundances budget df g0 = Inr (out, st)"
    and mult: "\<And>n p g. length (fst (multinomial n p g)) = length p \<and>
                        (p \<noteq> [] \<longrightarrow> sum_list (fst (multinomial n p g)) = n)"
    and dir: "\<And>a g. length (fst (dirichlet a g)) = length a"
    and keys: "distinct (map (\<lambda>r. (ref r, amplicon_number r)) df)"
  shows "map (\<lambda>r. (ref r, amplicon_number r)) out = map (\<lambda>r. (ref r, amplicon_number r)) df \<and>
         (\<forall>r1 \<in> set out. \<forall>r2 \<in> set out. ref r1 = ref r2 \<longrightarrow> genome_n_reads r1 = genome_n_reads r2) \<and>
         (\<forall>r \<in> set out. \<exists>vec. map_of (prob_cache st) (ref r) = Some vec \<and>
              position (map (\<lambda>r. (ref r, amplicon_number r)) df) r < length vec \<and>
              amplicon_prob r = vec ! position (map (\<lambda>r. (ref r, amplicon_number r)) df) r) \<and>
         (\<forall>r \<in> set out. sum_list (map n_reads (filter (\<lambda>x. ref x = ref r) out)) = genome_n_reads r)"
proof -
  define amps where "amps = map (\<lambda>r. (ref r, amplicon_number r)) df"
  define df1 where "df1 = map (\<lambda>r. r\<lparr>hyperparameter := hyper (ref r) (amplicon_number r)\<rparr>)
                            (map (\<lambda>r. r\<lparr>total_n_reads := budget\<rparr>) df)"
  define st0 :: "'a sampler_state" where
    "st0 = \<lparr>generator = g0, genome_draw = None, prob_cache = [], count_cache = []\<rparr>"
  from allocate_stages [OF ok] obtain col2 st2 col3 st3 col4 where
    a2: "df_apply (genome_count_sampler multinomial abundances budget) st0 df1 = Inr (col2, st2)"
    and a3': "df_apply (amplicon_probability_sampler dirichlet hyper amps) st2
        (assign (\<lambda>r v. r\<lparr>genome_n_reads := v\<rparr>) df1 col2) = Inr (col3, st3)"
    and a4': "df_apply (amplicon_reads_sampler multinomial amps) st3
        (assign (\<lambda>r v. r\<lparr>amplicon_prob := v\<rparr>) (assign (\<lambda>r v. r\<lparr>genome_n_reads := v\<rparr>) df1 col2) col3)
        = Inr (col4, st)"
    and out': "out = assign (\<lambda>r v. r\<lparr>n_reads := v\<rparr>)
        (assign (\<lambda>r v. r\<lparr>amplicon_prob := v\<rparr>) (assign (\<lambda>r v. r\<lparr>genome_n_reads := v\<rparr>) df1 col2) col3) col4"
    unfolding amps_def df1_def st0_def by blast
  define df2 where "df2 = assign (\<lambda>r v. r\<lparr>genome_n_reads := v\<rparr>) df1 col2"
  define df3 where "df3 = assign (\<lambda>r v. r\<lparr>amplicon_prob := v\<rparr>) df2 col3"
  have a3: "df_apply (amplicon_probability_sampler dirichlet hyper amps) st2 df2 = Inr (col3, st3)"
    using a3' by (simp only: df2_def)
  have a4: "df_apply (amplicon_reads_sampler multinomial amps) st3 df3 = Inr (col4, st)"
    using a4' by (simp only: df2_def df3_def)
  have out: "out = assign (\<lambda>r v. r\<lparr>n_reads := v\<rparr>) df3 col4"
    using out' by (simp only: df2_def df3_def)
  let ?key = "\<lambda>r. (ref r, amplicon_number r)"
  have k1: "map ?key df1 = amps" by (simp add: df1_def amps_def o_def)
  have k2: "map ?key df2 = amps"
    unfolding df2_def using map_assign [OF df_apply_length [OF a2], of ?key] k1 by simp
  have k3: "map ?key df3 = amps"
    unfolding df3_def using map_assign [OF df_apply_length [OF a3], of ?key] k2 by simp
  have k4: "map ?key out = amps"
    unfolding out using map_assign [OF df_apply_length [OF a4], of ?key] k3 by simp
  from stage2 [OF a2] have L2: "list_all2 (genome_count_seen st2) df1 col2"
    and p2: "prob_cache st2 = []" and c2: "count_cache st2 = []" by (simp_all add: st0_def)
  from stage3 [OF a3 dir p2] have L3: "list_all2 (prob_seen amps st3) df2 col3"
    and c3: "count_cache st3 = []"
    and P3: "\<forall>g vec. map_of (prob_cache st3) g = Some vec \<longrightarrow> length vec = length (amplicons_of amps g)"
    by (simp_all add: c2)
  have rows3: "\<forall>r \<in> set df3. amplicon_number r \<in> set (amplicons_of amps (ref r))"
  proof
    fix r assume "r \<in> set df3"
    then have "?key r \<in> set (map ?key df3)" by (auto simp del: map_eq_conv)
    then have "(ref r, amplicon_number r) \<in> set amps" by (simp only: k3)
    then show "amplicon_number r \<in> set (amplicons_of amps (ref r))"
      by (force simp: amplicons_of_def)
  qed
  from stage4 [OF a4 mult c3 P3 rows3] have L4: "list_all2 (count_seen amps st) df3 col4"
    and p4: "prob_cache st = prob_cache st3"
    and C4: "\<forall>g vec. map_of (count_cache st) g = Some vec \<longrightarrow>
            length vec = length (amplicons_of amps g) \<and>
            (\<exists>r \<in> set df3. ref r = g \<and> sum_list vec = genome_n_reads r)"
    by simp_all
  have G2: "genome_count_seen st2 r (genome_n_reads r)" if "r \<in> set df2" for r
  proof -
    from set_assign [OF L2 that [unfolded df2_def]] obtain r1 v where
      "r = r1\<lparr>genome_n_reads := v\<rparr>" "genome_count_seen st2 r1 v" by blast
    then show ?thesis by (simp add: genome_count_seen_def)
  qed
  have G3: "genome_count_seen st2 r (genome_n_reads r) \<and> prob_seen amps st3 r (amplicon_prob r)"
    if "r \<in> set df3" for r
  proof -
    from set_assign [OF L3 that [unfolded df3_def]] obtain r2 v where
      "r2 \<in> set df2" "r = r2\<lparr>amplicon_prob := v\<rparr>" "prob_seen amps st3 r2 v" by blast
    with G2 [of r2] show ?thesis by (simp add: genome_count_seen_def prob_seen_def position_def)
  qed
  have G4: "genome_count_seen st2 r (genome_n_reads r) \<and> prob_seen amps st3 r (amplicon_prob r) \<and>
            count_seen amps st r (n_reads r)" if "r \<in> set out" for r
  proof -
    from set_assign [OF L4 that [unfolded out]] obtain r3 v where
      "r3 \<in> set df3" "r = r3\<lparr>n_reads := v\<rparr>" "count_seen amps st r3 v" by blast
    with G3 [of r3] show ?thesis
      by (simp add: genome_count_seen_def prob_seen_def count_seen_def position_def)
  qed
  have same: "genome_n_reads r1 = genome_n_reads r2"
    if "genome_count_seen st2 r1 (genome_n_reads r1)" "genome_count_seen st2 r2 (genome_n_reads r2)"
       "ref r1 = ref r2" for r1 r2 :: amplicon_row
    using that by (auto simp: genome_count_seen_def)
  have a: "\<forall>r1 \<in> set out. \<forall>r2 \<in> set out. ref r1 = ref r2 \<longrightarrow> genome_n_reads r1 = genome_n_reads r2"
    using G4 same by blast
  have b: "\<forall>r \<in> set out. \<exists>vec. map_of (prob_cache st) (ref r) = Some vec \<and>
              position amps r < length vec \<and> amplicon_prob r = vec ! position amps r"
    using G4 by (auto simp: prob_seen_def p4)
  have c: "sum_list (map n_reads (filter (\<lambda>x. ref x = ref r) out)) = genome_n_reads r"
    if r: "r \<in> set out" for r
  proof -
    let ?g = "ref r"
    let ?rows = "filter (\<lambda>x. ref x = ?g) out"
    from G4 [OF r] obtain vec where vec: "map_of (count_cache st) ?g = Some vec"
      by (auto simp: count_seen_def)
    from C4 vec obtain r0 where lv: "length vec = length (amplicons_of amps ?g)"
      and r0: "r0 \<in> set df3" "ref r0 = ?g" "sum_list vec = genome_n_reads r0" by blast
    have "map n_reads ?rows = map (\<lambda>x. vec ! position amps x) ?rows"
    proof (rule map_cong [OF refl])
      fix x assume "x \<in> set ?rows"
      then have "x \<in> set out" "ref x = ?g" by simp_all
      with G4 [of x] vec show "n_reads x = vec ! position amps x"
        by (auto simp: count_seen_def)
    qed
    also have "\<dots> = map ((!) vec) (map (position amps) ?rows)" by simp
    also have "\<dots> = map ((!) vec) [0..<length vec]"
      using positions_of_genome [OF k4, of ?g] keys lv by (simp add: amps_def)
    also have "\<dots> = vec" by (rule map_nth)
    finally have "sum_list (map n_reads ?rows) = genome_n_reads r0" using r0(3) by simp
    also have "\<dots> = genome_n_reads r"
      using same [of r0 r] G3 [OF r0(1)] G4 [OF r] r0(2) by simp
    finally show ?thesis .
  qed
  have c': "\<forall>r \<in> set out. sum_list (map n_reads (filter (\<lambda>x. ref x = ref r) out)) = genome_n_reads r"
    using c by blast
  show ?thesis
    using k4 a b c' unfolding amps_def by (intro conjI)
qed

lemma example_multinomial_contract:
  "length (fst (example_multinomial n p g)) = length p \<and>
   (p \<noteq> [] \<longrightarrow> sum_list (fst (example_multinomial n p g)) = n)"
  by (auto simp: example_multinomial_def split: list.splits)

lemma example_dirichlet_contract: "length (fst (example_dirichlet a g)) = length a"
  by (simp add: example_dirichlet_def)

lemmas example_allocation_defs =
  example_allocation_def allocate_def example_table_def blank_row_def
  genome_count_sampler_def amplicon_probability_sampler_def amplicon_reads_sampler_def
  example_multinomial_def example_dirichlet_def example_hyper_def assign_def Let_def
  component_def position_def amplicons_of_def

theorem allocation_is_consistent_per_genome_witness:
  "\<not> isl example_allocation \<and>
   distinct (map (\<lambda>r. (ref r, amplicon_number r)) example_table) \<and>
   map ref (fst (projr example_allocation)) = [''A'', ''B'', ''A''] \<and>
   map genome_n_reads (fst (projr example_allocation)) = [7, 3, 7] \<and>
   map n_reads (fst (projr example_allocation)) = [5, 3, 2] \<and>
   sum_list (map n_reads (filter (\<lambda>x. ref x = ''A'') (fst (projr example_allocation)))) = 7 \<and>
   sum_list (map n_reads (filter (\<lambda>x. ref x = ''B'') (fst (projr example_allocation)))) = 3"
proof -
  let ?out = "fst (projr example_allocation)"
  let ?st = "snd (projr example_allocation)"
  have ok: "\<not> isl example_allocation"
    by (simp add: example_allocation_defs)
  then have run: "allocate example_multinomial example_dirichlet example_hyper
       [(''A'', 1 / 2), (''B'', 1 / 2)] 10 example_table 0 = Inr (?out, ?st)"
    by (simp add: example_allocation_def [symmetric])
  have keys: "distinct (map (\<lambda>r. (ref r, amplicon_number r)) example_table)"
    by (simp add: example_table_def blank_row_def)
  have cols: "map ref ?out = [''A'', ''B'', ''A'']" "map genome_n_reads ?out = [7, 3, 7]"
    "map n_reads ?out = [5, 3, 2]"
    by (simp_all add: example_allocation_defs)
  have len: "length ?out = 3" using cols(1) by (metis length_map length_Cons list.size(3) numeral_3_eq_3)
  have r0: "?out ! 0 \<in> set ?out" "ref (?out ! 0) = ''A''" "genome_n_reads (?out ! 0) = 7"
    using nth_map [of 0 ?out ref] nth_map [of 0 ?out genome_n_reads] len
    by (simp_all add: cols)
  have r1: "?out ! 1 \<in> set ?out" "ref (?out ! 1) = ''B''" "genome_n_reads (?out ! 1) = 3"
    using nth_map [of 1 ?out ref] nth_map [of 1 ?out genome_n_reads] len
    by (simp_all add: cols)
  from allocation_is_consistent_per_genome
         [OF run example_multinomial_contract example_dirichlet_contract keys]
  have "\<forall>r \<in> set ?out. sum_list (map n_reads (filter (\<lambda>x. ref x = ref r) ?out)) = genome_n_reads r"
    by blast
  with r0 r1 have "sum_list (map n_reads (filter (\<lambda>x. ref x = ''A'') ?out)) = 7"
    "sum_list (map n_reads (filter (\<lambda>x. ref x = ''B'') ?out)) = 3"
    by metis+
  with ok keys cols show ?thesis by blast
qed

end
